theory Spec2Isabelle
  imports Complex_Main "HOL-Library.Sublist"
begin

section \<open>Go values shared by the scanner packages\<close>

text \<open>
  A \<open>time.Duration\<close> is a count of nanoseconds. Go's \<open>int\<close> has 64 bits and is
  modelled by \<open>int\<close>; where the code converts or multiplies a value that its caller
  supplies, the result in 64 bits is written out. A counter that goes up by one in
  each round of a loop is taken not to overflow, and neither is a delay computed from
  it: the first would need \<open>2^63\<close> rounds, the second more than \<open>9 * 10^10\<close> rounds
  with a sleep after each. A \<open>float64\<close> is modelled by a \<open>real\<close>: it is a finite
  number (no \<open>NaN\<close>, no infinity), and sums, products and quotients are exact, where
  \<open>float64\<close> rounds them.
\<close>

type_synonym Duration = int

definition Millisecond :: Duration where
  "Millisecond = 1000000"

definition Second :: Duration where
  "Second = 1000000000"

definition MinInt64 :: int where
  "MinInt64 = - (2 ^ 63)"

definition MaxInt64 :: int where
  "MaxInt64 = 2 ^ 63 - 1"

text \<open>The 64 bits of an integer, read as a signed number: the result of \<open>int\<close> arithmetic.\<close>

definition wrap64 :: "int \<Rightarrow> int" where
  "wrap64 i = (i - MinInt64) mod 2 ^ 64 + MinInt64"

text \<open>
  The conversions \<open>int(x)\<close> and \<open>time.Duration(x)\<close> of a \<open>float64\<close>: truncation
  towards zero when the result fits \<open>int64\<close>. When it does not, Go leaves the result to
  the implementation; on \<open>amd64\<close> it is the smallest \<open>int64\<close>, which is taken here.
\<close>

definition trunc :: "real \<Rightarrow> int" where
  "trunc x = (if x < 0 then \<lceil>x\<rceil> else \<lfloor>x\<rfloor>)"

definition int_of_float :: "real \<Rightarrow> int" where
  "int_of_float x =
     (if MinInt64 \<le> trunc x \<and> trunc x \<le> MaxInt64 then trunc x else MinInt64)"

text \<open>
  A non-nil \<open>error\<close> is a pointer to an object: \<open>errors.New(s)\<close> allocates an
  \<open>errorString\<close> and \<open>fmt.Errorf("...%w", e)\<close>, with the formatted message \<open>msg\<close>, a
  \<open>wrapError\<close>. A value of the model is the address of the object together with what
  the object holds. Every call of \<open>errors.New\<close> or \<open>fmt.Errorf\<close> gives a new object,
  also when the text is the same; an address holds one object, so that two values are
  the same pointer, \<open>==\<close> in Go, exactly when they are equal. A Go variable of type
  \<open>error\<close> is an \<open>error option\<close>, \<open>None\<close> being \<open>nil\<close>.
\<close>

type_synonym addr = nat

datatype error = errorString addr string | wrapError addr string error

text \<open>The method \<open>Error()\<close> of an error: its message.\<close>

fun ErrorText :: "error \<Rightarrow> string" where
  "ErrorText (errorString a s) = s"
| "ErrorText (wrapError a msg e) = msg"

fun Unwrap :: "error \<Rightarrow> error option" where
  "Unwrap (errorString a s) = None"
| "Unwrap (wrapError a msg e) = Some e"

text \<open>The objects on the chain of \<open>Unwrap\<close> of an error, the error itself first.\<close>

fun chain :: "error \<Rightarrow> error list" where
  "chain (errorString a s) = [errorString a s]"
| "chain (wrapError a msg e) = wrapError a msg e # chain e"

text \<open>
  \<open>errors.Is(err, target)\<close> for a non-nil \<open>err\<close>: a nil target matches nothing;
  otherwise the chain of \<open>Unwrap\<close> is walked and each link compared, as a pointer, with
  the target. Neither kind of object has a method \<open>Is\<close>.
\<close>

fun errors_Is :: "error \<Rightarrow> error option \<Rightarrow> bool" where
  "errors_Is err None = False"
| "errors_Is (errorString a s) (Some target) = (errorString a s = target)"
| "errors_Is (wrapError a msg e) (Some target) =
     (wrapError a msg e = target \<or> errors_Is e (Some target))"

text \<open>The verb \<open>%d\<close> of \<open>fmt\<close>: the decimal digits of an integer.\<close>

definition digit_char :: "nat \<Rightarrow> char" where
  "digit_char d = ''0123456789'' ! d"

fun digits :: "nat \<Rightarrow> string" where
  "digits n = (if n < 10 then [digit_char n] else digits (n div 10) @ [digit_char (n mod 10)])"

definition Itoa :: "int \<Rightarrow> string" where
  "Itoa i = (if i < 0 then CHR ''-'' # digits (nat (- i)) else digits (nat i))"

section \<open>Retry with backoff (scanner/utils/retry.go)\<close>

record RetryConfig =
  MaxRetries :: int
  InitialDelay :: Duration
  MaxDelay :: Duration
  BackoffFactor :: real
  Jitter :: bool
  RetryableErrors :: "error option list"

definition DefaultRetryConfig :: RetryConfig where
  "DefaultRetryConfig =
     \<lparr>MaxRetries = 3, InitialDelay = 100 * Millisecond, MaxDelay = 10 * Second,
      BackoffFactor = 2, Jitter = True, RetryableErrors = []\<rparr>"

text \<open>
  What \<open>RetryWithBackoff\<close> sees of its context: \<open>Done ctx k\<close> tells whether the channel
  \<open>ctx.Done()\<close> delivers at the \<open>k\<close>-th \<open>select\<close> on it (numbered from 0; in round
  \<open>attempt\<close> the check before the call is number \<open>2 * attempt\<close> and the wait after it
  number \<open>2 * attempt + 1\<close>, where a delivery means that cancellation wins against the
  timer), and \<open>ctxErr ctx\<close> is the value of \<open>ctx.Err()\<close> then.
\<close>

record Context =
  Done :: "nat \<Rightarrow> bool"
  ctxErr :: error

text \<open>
  A \<open>RetryableFunc\<close> is a closure: \<open>fn k\<close> is what its \<open>k\<close>-th invocation returns
  (numbered from 0), \<open>None\<close> being \<open>nil\<close>.
\<close>

type_synonym RetryableFunc = "nat \<Rightarrow> error option"

text \<open>
  The run of one \<open>RetryWithBackoff\<close>: the error it returns, the number of invocations of
  \<open>fn\<close> it made, and the durations it slept for, in order.
\<close>

record RetryRun =
  returned :: "error option"
  calls :: nat
  slept :: "Duration list"

definition isRetryable :: "error \<Rightarrow> error option list \<Rightarrow> bool" where
  "isRetryable err retryableErrors =
     (if length retryableErrors = 0 then True
      else list_ex (\<lambda>retryableErr. errors_Is err retryableErr) retryableErrors)"

text \<open>
  The value of \<open>fmt.Errorf("max retries (%d) exceeded: %w", n, lastErr)\<close>, allocated at
  the address \<open>new\<close>.
\<close>

definition max_retries_exceeded :: "addr \<Rightarrow> int \<Rightarrow> error option \<Rightarrow> error" where
  "max_retries_exceeded new n lastErr =
     (case lastErr of
        Some e \<Rightarrow> wrapError new (''max retries ('' @ Itoa n @ '') exceeded: '' @ ErrorText e) e
      | None \<Rightarrow> errorString new (''max retries ('' @ Itoa n @ '') exceeded: %!w(<nil>)''))"

text \<open>
  The delay slept after a failed attempt: the current delay, moved by a jitter of at
  most 30 percent either way when \<open>Jitter\<close> is set; \<open>r\<close> is the draw of
  \<open>rand.Float64()\<close>.
\<close>

definition currentDelay :: "RetryConfig \<Rightarrow> Duration \<Rightarrow> real \<Rightarrow> Duration" where
  "currentDelay config delay r =
     (if Jitter config
      then (let jitterRange = real_of_int delay * 0.3;
                jitter = r * jitterRange * 2 - jitterRange
            in int_of_float (real_of_int delay + jitter))
      else delay)"

definition nextDelay :: "RetryConfig \<Rightarrow> Duration \<Rightarrow> Duration" where
  "nextDelay config delay =
     (let delay' = int_of_float (real_of_int delay * BackoffFactor config)
      in if delay' > MaxDelay config then MaxDelay config else delay')"

text \<open>
  The loop of \<open>RetryWithBackoff\<close> (lines 54 to 101), from round \<open>attempt\<close> on;
  \<open>rnd k\<close> is the draw of \<open>rand.Float64()\<close> in round \<open>k\<close>, and \<open>new\<close> the address at
  which \<open>fmt.Errorf\<close> allocates the error of line 101.
\<close>

function retryLoop ::
  "Context \<Rightarrow> RetryConfig \<Rightarrow> RetryableFunc \<Rightarrow> (nat \<Rightarrow> real) \<Rightarrow> addr \<Rightarrow>
   nat \<Rightarrow> Duration \<Rightarrow> error option \<Rightarrow> nat \<Rightarrow> Duration list \<Rightarrow> RetryRun" where
  "retryLoop ctx config fn rnd new attempt delay lastErr n zs =
     (if int attempt \<le> MaxRetries config then
        (if Done ctx (2 * attempt)
         then \<lparr>returned = Some (ctxErr ctx), calls = n, slept = zs\<rparr>
         else
           (case fn n of
              None \<Rightarrow> \<lparr>returned = None, calls = n + 1, slept = zs\<rparr>
            | Some err \<Rightarrow>
                (if \<not> isRetryable err (RetryableErrors config)
                 then \<lparr>returned = Some err, calls = n + 1, slept = zs\<rparr>
                 else if int attempt = MaxRetries config
                 then \<lparr>returned = Some (max_retries_exceeded new (MaxRetries config) (Some err)),
                       calls = n + 1, slept = zs\<rparr>
                 else if Done ctx (2 * attempt + 1)
                 then \<lparr>returned = Some (ctxErr ctx), calls = n + 1, slept = zs\<rparr>
                 else retryLoop ctx config fn rnd new (attempt + 1) (nextDelay config delay)
                        (Some err) (n + 1) (zs @ [currentDelay config delay (rnd attempt)]))))
      else \<lparr>returned = Some (max_retries_exceeded new (MaxRetries config) lastErr),
            calls = n, slept = zs\<rparr>)"
  by pat_completeness auto
termination
  by (relation "measure (\<lambda>(ctx, config, fn, rnd, new, attempt, delay, lastErr, n, zs).
        nat (MaxRetries config + 1) - attempt)") auto

text \<open>The defaults that \<open>RetryWithBackoff\<close> puts in place of non-positive fields (lines 38 to 49).\<close>

definition withDefaults :: "RetryConfig \<Rightarrow> RetryConfig" where
  "withDefaults config =
     (let config = (if MaxRetries config \<le> 0 then config\<lparr>MaxRetries := 3\<rparr> else config);
          config = (if InitialDelay config \<le> 0
                    then config\<lparr>InitialDelay := 100 * Millisecond\<rparr> else config);
          config = (if MaxDelay config \<le> 0 then config\<lparr>MaxDelay := 10 * Second\<rparr> else config);
          config = (if BackoffFactor config \<le> 0 then config\<lparr>BackoffFactor := 2\<rparr> else config)
      in config)"

definition RetryWithBackoff ::
  "Context \<Rightarrow> RetryConfig \<Rightarrow> RetryableFunc \<Rightarrow> (nat \<Rightarrow> real) \<Rightarrow> addr \<Rightarrow> RetryRun" where
  "RetryWithBackoff ctx config fn rnd new =
     (let config = withDefaults config
      in retryLoop ctx config fn rnd new 0 (InitialDelay config) None 0 [])"

text \<open>
  Inputs for the examples: \<open>context.Background()\<close>, which is never cancelled (its
  \<open>ctxErr\<close> is never read), a function that fails with the same error at every
  invocation, and a random source that always draws 0.
\<close>

definition Background :: Context where
  "Background = \<lparr>Done = (\<lambda>k. False), ctxErr = errorString 0 ''context canceled''\<rparr>"

definition alwaysFailing :: "error \<Rightarrow> RetryableFunc" where
  "alwaysFailing e k = Some e"

definition zeroDraws :: "nat \<Rightarrow> real" where
  "zeroDraws k = 0"

text \<open>The zero value of \<open>RetryConfig\<close>.\<close>

definition zeroRetryConfig :: RetryConfig where
  "zeroRetryConfig =
     \<lparr>MaxRetries = 0, InitialDelay = 0, MaxDelay = 0, BackoffFactor = 0, Jitter = False,
      RetryableErrors = []\<rparr>"

text \<open>The number of retries that a run really uses: the configured one if positive, else 3.\<close>

definition effectiveMaxRetries :: "RetryConfig \<Rightarrow> int" where
  "effectiveMaxRetries config = (if MaxRetries config \<le> 0 then 3 else MaxRetries config)"


text \<open>
  Errors for the examples: the object \<open>temporary\<close> that a caller lists as retryable, a
  function that returns that very object, one that makes a new error of the same text
  at every invocation, and one that wraps the listed object in a new error.
\<close>

definition temporary :: error where
  "temporary = errorString 1 ''temporary''"

definition sameTemporary :: RetryableFunc where
  "sameTemporary k = Some temporary"

definition freshTemporary :: RetryableFunc where
  "freshTemporary k = Some (errorString (10 + k) ''temporary'')"

definition wrappedTemporary :: RetryableFunc where
  "wrappedTemporary k = Some (wrapError (10 + k) ''read: temporary'' temporary)"

text \<open>A context that is done from the start, as after \<open>cancel()\<close>.\<close>

definition Cancelled :: Context where
  "Cancelled = \<lparr>Done = (\<lambda>k. True), ctxErr = errorString 0 ''context canceled''\<rparr>"
section \<open>Circuit breaker (scanner/utils/retry.go)\<close>

text \<open>
  An instant of the process clock, in nanoseconds; \<open>time.Since(t)\<close> at \<open>now\<close> is
  \<open>now - t\<close>.
\<close>

type_synonym Time = int

record CircuitBreaker =
  maxFailures :: int
  resetTimeout :: Duration
  failures :: int
  lastFailureTime :: Time
  state :: string

text \<open>
  \<open>NewCircuitBreaker\<close> leaves \<open>failures\<close> and \<open>lastFailureTime\<close> at their zero values;
  \<open>lastFailureTime\<close> is read only while the state is \<open>open\<close>, after a failure has set it.
\<close>

definition NewCircuitBreaker :: "int \<Rightarrow> Duration \<Rightarrow> CircuitBreaker" where
  "NewCircuitBreaker m t =
     \<lparr>maxFailures = m, resetTimeout = t, failures = 0, lastFailureTime = 0,
      state = ''closed''\<rparr>"

text \<open>
  Lines 209 to 215 of \<open>Execute\<close>: at the clock reading \<open>now\<close>, an open breaker either
  moves to \<open>half-open\<close> or rejects the call with an error that \<open>errors.New\<close> allocates
  at \<open>new\<close>; \<open>Inr\<close> carries the breaker as the wrapped function will find it.
\<close>

definition admit :: "CircuitBreaker \<Rightarrow> Time \<Rightarrow> addr \<Rightarrow> error + CircuitBreaker" where
  "admit cb now new =
     (if state cb = ''open''
      then (if now - lastFailureTime cb > resetTimeout cb
            then Inr (cb\<lparr>state := ''half-open''\<rparr>)
            else Inl (errorString new ''circuit breaker is open''))
      else Inr cb)"

text \<open>
  Lines 219 to 232: the bookkeeping once the wrapped function has returned \<open>r\<close>;
  \<open>now'\<close> is the reading of \<open>time.Now()\<close> after a failure.
\<close>

definition settle :: "CircuitBreaker \<Rightarrow> error option \<Rightarrow> Time \<Rightarrow> CircuitBreaker" where
  "settle cb r now' =
     (case r of
        Some err \<Rightarrow>
          (let cb = cb\<lparr>failures := failures cb + 1, lastFailureTime := now'\<rparr>
           in if failures cb \<ge> maxFailures cb then cb\<lparr>state := ''open''\<rparr> else cb)
      | None \<Rightarrow> cb\<lparr>failures := 0, state := ''closed''\<rparr>)"

text \<open>
  One call of \<open>Execute\<close>: the error returned, whether the wrapped function was invoked,
  the state it could observe through \<open>State()\<close> while it ran, and the breaker afterwards.
  The wrapped function is given by what it returns when invoked.
\<close>

record Execution =
  errReturned :: "error option"
  invoked :: bool
  during :: string
  after :: CircuitBreaker

definition Execute ::
  "CircuitBreaker \<Rightarrow> Time \<Rightarrow> error option \<Rightarrow> Time \<Rightarrow> addr \<Rightarrow> Execution" where
  "Execute cb now r now' new =
     (case admit cb now new of
        Inl e \<Rightarrow> \<lparr>errReturned = Some e, invoked = False, during = state cb, after = cb\<rparr>
      | Inr cb' \<Rightarrow> \<lparr>errReturned = r, invoked = True, during = state cb', after = settle cb' r now'\<rparr>)"

definition State :: "CircuitBreaker \<Rightarrow> string" where
  "State cb = state cb"

text \<open>
  A sequence of calls, one after the other, each given by its clock reading at entry,
  the function's result, the clock reading after a failure, and the address for the
  error of a rejection.
\<close>

type_synonym Call = "Time \<times> error option \<times> Time \<times> addr"

fun ExecuteAll :: "CircuitBreaker \<Rightarrow> Call list \<Rightarrow> CircuitBreaker" where
  "ExecuteAll cb [] = cb"
| "ExecuteAll cb ((now, r, now', new) # cs) = ExecuteAll (after (Execute cb now r now' new)) cs"

text \<open>
  The failures of a sequence of calls: the clock readings after those calls that
  invoked the function and got an error from it, in order. The last failure is the
  last of them.
\<close>

fun failureTimes :: "CircuitBreaker \<Rightarrow> Call list \<Rightarrow> Time list" where
  "failureTimes cb [] = []"
| "failureTimes cb ((now, r, now', new) # cs) =
     (if invoked (Execute cb now r now' new) \<and> r \<noteq> None then [now'] else [])
     @ failureTimes (after (Execute cb now r now' new)) cs"

text \<open>The clock reading after a call's failure.\<close>

definition failedAt :: "Call \<Rightarrow> Time" where
  "failedAt c = fst (snd (snd c))"

text \<open>
  What holds of a breaker between two calls: it is closed, or it is open with at least
  \<open>maxFailures\<close> failures counted.
\<close>

definition cb_inv :: "CircuitBreaker \<Rightarrow> bool" where
  "cb_inv cb \<longleftrightarrow>
     (state cb = ''closed'' \<or> state cb = ''open'' \<and> failures cb \<ge> maxFailures cb)"

text \<open>Inputs for the examples: an error, and two failing calls with their clock readings.\<close>

definition refused :: error where
  "refused = errorString 1 ''connection refused''"

definition twoFailures :: "Call list" where
  "twoFailures = [(10, Some refused, 11, 2), (20, Some refused, 21, 3)]"
section \<open>Token bucket rate limiter (package utils)\<close>

text \<open>
  The limiter reads the clock through \<open>time.Now()\<close>; each operation below takes that
  reading as \<open>now\<close>. \<open>now.Sub(t).Seconds()\<close> is the difference in seconds. The rate is
  a \<open>float64\<close> and the burst an \<open>int\<close>; when the burst given is not positive,
  \<open>NewRateLimiter\<close> takes \<open>int(ratePerSecond)\<close>, which is the smallest \<open>int64\<close> when
  the rate is \<open>2^63\<close> or more.
\<close>

record RateLimiter =
  rate :: real
  burst :: int
  tokens :: real
  lastUpdate :: Time


definition NewRateLimiter :: "real \<Rightarrow> int \<Rightarrow> Time \<Rightarrow> RateLimiter" where
  "NewRateLimiter ratePerSecond b now =
     (let ratePerSecond = (if ratePerSecond \<le> 0 then 10 else ratePerSecond);
          b = (if b \<le> 0 then int_of_float ratePerSecond else b)
      in \<lparr>rate = ratePerSecond, burst = b, tokens = real_of_int b, lastUpdate = now\<rparr>)"




definition SetRate :: "RateLimiter \<Rightarrow> real \<Rightarrow> RateLimiter" where
  "SetRate rl ratePerSecond = rl\<lparr>rate := ratePerSecond\<rparr>"










section \<open>DNS resolver (package subdomain)\<close>

record ResolverConfig =
  Resolvers :: "string list"
  Timeout :: Duration
  Retries :: int
  Workers :: int

record ResolutionResult =
  Subdomain :: string
  IPs :: "string list"
  Alive :: bool
  Error :: string


text \<open>
  An address that a lookup returns is modelled by its text, so that \<open>ip.IP.String()\<close> is
  the identity. What \<open>LookupIPAddr\<close> returns is the pair of the addresses and the
  error; \<open>lookup k\<close> is what the \<open>k\<close>-th lookup of a subdomain returns (numbered from 0).
\<close>

type_synonym IPAddr = string

definition IP_String :: "IPAddr \<Rightarrow> string" where
  "IP_String ip = ip"

type_synonym Lookups = "nat \<Rightarrow> IPAddr list \<times> error option"

text \<open>
  One \<open>resolveWithRetry\<close>: its result, the timeout given to each lookup it made, in
  order, and the durations it slept for between them.
\<close>

record Resolution =
  outcome :: ResolutionResult
  timeouts :: "Duration list"
  waits :: "Duration list"

function resolveLoop ::
  "ResolverConfig \<Rightarrow> Lookups \<Rightarrow> string \<Rightarrow> nat \<Rightarrow> error option \<Rightarrow>
   Duration list \<Rightarrow> Duration list \<Rightarrow> Resolution" where
  "resolveLoop config lookup subdomain attempt lastErr ts zs =
     (if int attempt \<le> Retries config then
        (case lookup attempt of
           (ips, err) \<Rightarrow>
             (if err = None \<and> length ips > 0
              then \<lparr>outcome = \<lparr>Subdomain = subdomain, IPs = map IP_String ips,
                                Alive = True, Error = ''''\<rparr>,
                    timeouts = ts @ [Timeout config], waits = zs\<rparr>
              else resolveLoop config lookup subdomain (attempt + 1) err
                     (ts @ [Timeout config])
                     (if int attempt < Retries config
                      then zs @ [(int attempt + 1) * 100 * Millisecond] else zs)))
      else \<lparr>outcome = \<lparr>Subdomain = subdomain, IPs = [], Alive = False,
                        Error = (case lastErr of None \<Rightarrow> '''' | Some e \<Rightarrow> ErrorText e)\<rparr>,
            timeouts = ts, waits = zs\<rparr>)"
  by pat_completeness auto
termination
  by (relation "measure (\<lambda>(config, lookup, subdomain, attempt, lastErr, ts, zs).
        nat (Retries config + 1) - attempt)") auto

definition resolveWithRetry :: "ResolverConfig \<Rightarrow> Lookups \<Rightarrow> string \<Rightarrow> Resolution" where
  "resolveWithRetry config lookup subdomain = resolveLoop config lookup subdomain 0 None [] []"

text \<open>
  A panic of the Go runtime. \<open>make(chan T, size)\<close> panics when the size is negative or
  the buffer is more than the runtime can allocate; \<open>maxchan\<close> is the largest size that
  the runtime accepts for the element type, which depends on the platform. \<open>makechan\<close>
  tells whether the channel is made.
\<close>

datatype panic = MakechanSizeOutOfRange

definition makechan :: "int \<Rightarrow> int \<Rightarrow> bool" where
  "makechan maxchan n \<longleftrightarrow> 0 \<le> n \<and> n \<le> maxchan"

text \<open>
  \<open>Resolve\<close> hands the subdomains to its workers through a channel and gathers what
  they send back. What the scheduler and the cancellation of the context leave open is
  given by \<open>arrived\<close>: the subdomains whose jobs a worker carried through, in the order
  in which their results reach the result channel; \<open>net j\<close> gives the lookups of the
  job at position \<open>j\<close> of that order. The job channel has the size \<open>Workers * 2\<close>, a
  product of \<open>int\<close>; creating it may panic. (The result channel has one place for each
  subdomain given.)
\<close>

definition Resolve ::
  "int \<Rightarrow> ResolverConfig \<Rightarrow> (nat \<Rightarrow> Lookups) \<Rightarrow> string list \<Rightarrow> panic + ResolutionResult list" where
  "Resolve maxchan config net arrived =
     (if \<not> makechan maxchan (wrap64 (Workers config * 2)) then Inl MakechanSizeOutOfRange
      else Inr (filter Alive
             (map (\<lambda>(j, subdomain). outcome (resolveWithRetry config (net j) subdomain))
                (enumerate 0 arrived))))"

definition FilterAlive ::
  "int \<Rightarrow> ResolverConfig \<Rightarrow> (nat \<Rightarrow> Lookups) \<Rightarrow> string list \<Rightarrow> panic + string list" where
  "FilterAlive maxchan config net arrived =
     (case Resolve maxchan config net arrived of
        Inl p \<Rightarrow> Inl p
      | Inr results \<Rightarrow> Inr (map Subdomain (filter Alive results)))"











section \<open>Page titles (scanner/subdomain/enumerator.go)\<close>

text \<open>
  A Go string is the list of its bytes. The library functions used by \<open>extractTitle\<close>
  read a string as UTF-8 text; they are modelled on the bytes, which is exact here:
  a byte below \<open>0x80\<close>, such as \<open><\<close> or \<open>>\<close>, never occurs inside the encoding of
  another character, and a byte that is not valid UTF-8 counts as one character that
  is neither white space nor one of the characters the expression names.
\<close>

subsection \<open>strings.TrimSpace\<close>

text \<open>
  The UTF-8 encodings of the characters for which \<open>unicode.IsSpace\<close> holds: tab, line
  feed, vertical tab, form feed, carriage return, space, U+0085, U+00A0, U+1680,
  U+2000 to U+200A, U+2028, U+2029, U+202F, U+205F and U+3000.
\<close>

definition spaceRunes :: "string list" where
  "spaceRunes =
     [[CHR 0x09], [CHR 0x0A], [CHR 0x0B], [CHR 0x0C], [CHR 0x0D], [CHR 0x20],
      [CHR 0xC2, CHR 0x85], [CHR 0xC2, CHR 0xA0], [CHR 0xE1, CHR 0x9A, CHR 0x80],
      [CHR 0xE2, CHR 0x80, CHR 0x80], [CHR 0xE2, CHR 0x80, CHR 0x81],
      [CHR 0xE2, CHR 0x80, CHR 0x82], [CHR 0xE2, CHR 0x80, CHR 0x83],
      [CHR 0xE2, CHR 0x80, CHR 0x84], [CHR 0xE2, CHR 0x80, CHR 0x85],
      [CHR 0xE2, CHR 0x80, CHR 0x86], [CHR 0xE2, CHR 0x80, CHR 0x87],
      [CHR 0xE2, CHR 0x80, CHR 0x88], [CHR 0xE2, CHR 0x80, CHR 0x89],
      [CHR 0xE2, CHR 0x80, CHR 0x8A], [CHR 0xE2, CHR 0x80, CHR 0xA8],
      [CHR 0xE2, CHR 0x80, CHR 0xA9], [CHR 0xE2, CHR 0x80, CHR 0xAF],
      [CHR 0xE2, CHR 0x81, CHR 0x9F], [CHR 0xE3, CHR 0x80, CHR 0x80]]"

text \<open>The white-space character that a string starts with, or ends with, if any.\<close>

definition leadingSpace :: "string \<Rightarrow> string option" where
  "leadingSpace s = find (\<lambda>p. prefix p s) spaceRunes"

definition trailingSpace :: "string \<Rightarrow> string option" where
  "trailingSpace s = find (\<lambda>p. suffix p s) spaceRunes"

lemma spaceRunes_nonempty: "p \<in> set spaceRunes \<Longrightarrow> p \<noteq> []"
  by (auto simp: spaceRunes_def)

lemma leadingSpace_SomeD:
  "leadingSpace s = Some p \<Longrightarrow> p \<in> set spaceRunes \<and> prefix p s \<and> p \<noteq> []"
  by (auto simp: leadingSpace_def find_Some_iff spaceRunes_nonempty)

lemma trailingSpace_SomeD:
  "trailingSpace s = Some p \<Longrightarrow> p \<in> set spaceRunes \<and> suffix p s \<and> p \<noteq> []"
  by (auto simp: trailingSpace_def find_Some_iff spaceRunes_nonempty)

function TrimLeft :: "string \<Rightarrow> string" where
  "TrimLeft s = (case leadingSpace s of None \<Rightarrow> s | Some p \<Rightarrow> TrimLeft (drop (length p) s))"
  by pat_completeness auto
termination
proof (relation "measure length")
  fix s p assume "leadingSpace s = Some p"
  then have "prefix p s" "p \<noteq> []" by (simp_all add: leadingSpace_SomeD)
  then have "s \<noteq> []" by auto
  with \<open>p \<noteq> []\<close> show "(drop (length p) s, s) \<in> measure length" by simp
qed simp

function TrimRight :: "string \<Rightarrow> string" where
  "TrimRight s =
     (case trailingSpace s of None \<Rightarrow> s | Some p \<Rightarrow> TrimRight (take (length s - length p) s))"
  by pat_completeness auto
termination
proof (relation "measure length")
  fix s p assume "trailingSpace s = Some p"
  then have "suffix p s" "p \<noteq> []" by (simp_all add: trailingSpace_SomeD)
  then have "s \<noteq> []" by auto
  with \<open>p \<noteq> []\<close> show "(take (length s - length p) s, s) \<in> measure length" by simp
qed simp

definition TrimSpace :: "string \<Rightarrow> string" where
  "TrimSpace s = TrimRight (TrimLeft s)"

subsection \<open>The regular expression of extractTitle\<close>

text \<open>
  Under the flag \<open>(?i)\<close> a letter of the expression matches itself and its other case
  (for the letters of \<open>title\<close> Unicode's simple case folding adds no further character);
  any other character of the expression matches itself only.
\<close>

definition otherCase :: "char \<Rightarrow> char" where
  "otherCase c =
     (case map_of (zip ''abcdefghijklmnopqrstuvwxyz'' ''ABCDEFGHIJKLMNOPQRSTUVWXYZ'') c of
        Some d \<Rightarrow> d | None \<Rightarrow> c)"

text \<open>
  \<open>matchFold lit s\<close> matches the literal \<open>lit\<close>, given in lower case, at the start of
  \<open>s\<close> without regard to case, and returns what follows it.
\<close>

fun matchFold :: "string \<Rightarrow> string \<Rightarrow> string option" where
  "matchFold [] s = Some s"
| "matchFold (p # ps) [] = None"
| "matchFold (p # ps) (c # cs) = (if c = p \<or> c = otherCase p then matchFold ps cs else None)"

text \<open>
  The expression \<open>(?i)<title[^>]*>([^<]+)</title>\<close> matched at the start of \<open>s\<close>; the
  result is the text of its group. After \<open><title\<close> the class \<open>[^>]*\<close> can only run up to
  the next \<open>>\<close>, which must exist; after it the class \<open>[^<]+\<close> can only run up to the
  next \<open><\<close>, must not be empty, and \<open></title>\<close> must follow: a shorter run of either
  class would be followed by a character of the class, not by the character the
  expression wants next, so backtracking finds no other match.
\<close>

definition matchTitleAt :: "string \<Rightarrow> string option" where
  "matchTitleAt s =
     (case matchFold ''<title'' s of
        None \<Rightarrow> None
      | Some r1 \<Rightarrow>
          (case dropWhile (\<lambda>c. c \<noteq> CHR ''>'') r1 of
             [] \<Rightarrow> None
           | gt # r2 \<Rightarrow>
               (let g = takeWhile (\<lambda>c. c \<noteq> CHR ''<'') r2;
                    r3 = dropWhile (\<lambda>c. c \<noteq> CHR ''<'') r2
                in if g = [] then None
                   else (case matchFold ''</title>'' r3 of
                           None \<Rightarrow> None
                         | Some r4 \<Rightarrow> Some g))))"

text \<open>
  \<open>re.FindStringSubmatch(body)\<close> for this expression: the leftmost match, of which only
  the group is kept; \<open>None\<close> when nothing matches (\<open>len(matches) = 0\<close>).
\<close>

fun FindStringSubmatch :: "string \<Rightarrow> string option" where
  "FindStringSubmatch [] = matchTitleAt []"
| "FindStringSubmatch (c # cs) =
     (case matchTitleAt (c # cs) of
        Some g \<Rightarrow> Some g
      | None \<Rightarrow> FindStringSubmatch cs)"

definition extractTitle :: "string \<Rightarrow> string" where
  "extractTitle body =
     (case FindStringSubmatch body of
        Some g \<Rightarrow>
          (let title = TrimSpace g
           in if length title > 100 then take 100 title @ ''...'' else title)
      | None \<Rightarrow> '''')"

subsection \<open>What the expression says\<close>

text \<open>
  The matches of the expression, stated on its own terms: \<open>s\<close> starts with a match whose
  group is \<open>g\<close> when it starts with \<open><title\<close> in any case, then characters other than
  \<open>>\<close>, then \<open>>\<close>, then the non-empty \<open>g\<close> free of \<open><\<close>, then \<open></title>\<close> in any case.
  The first match of a body is the one that starts leftmost.
\<close>

definition foldEq :: "string \<Rightarrow> string \<Rightarrow> bool" where
  "foldEq s lit \<longleftrightarrow> list_all2 (\<lambda>c p. c = p \<or> c = otherCase p) s lit"

definition title_match :: "string \<Rightarrow> string \<Rightarrow> bool" where
  "title_match s g \<longleftrightarrow>
     (\<exists>tag attrs closing rest.
        s = tag @ attrs @ [CHR ''>''] @ g @ closing @ rest
        \<and> foldEq tag ''<title'' \<and> CHR ''>'' \<notin> set attrs
        \<and> g \<noteq> [] \<and> CHR ''<'' \<notin> set g \<and> foldEq closing ''</title>'')"

definition first_title_match :: "string \<Rightarrow> string \<Rightarrow> bool" where
  "first_title_match body g \<longleftrightarrow>
     (\<exists>before s. body = before @ s \<and> title_match s g
        \<and> (\<forall>before' s' g'. body = before' @ s' \<and> length before' < length before
              \<longrightarrow> \<not> title_match s' g'))"

text \<open>A run of white-space characters.\<close>

definition spaces :: "string \<Rightarrow> bool" where
  "spaces s \<longleftrightarrow> (\<exists>ps. set ps \<subseteq> set spaceRunes \<and> s = concat ps)"

text \<open>Inputs for the examples.\<close>

definition longTitlePage :: string where
  "longTitlePage = ''<title>'' @ replicate 101 (CHR ''a'') @ ''</title>''"

definition examplePage :: string where
  "examplePage = ''<html><TITLE lang=en> Home  </Title></html>''"

section \<open>HTTP prober (scanner/subdomain/enumerator.go)\<close>

text \<open>
  The fields \<open>Workers\<close>, \<open>Timeout\<close>, \<open>Retries\<close> and \<open>Headers\<close> of \<open>ProbeConfig\<close> carry a
  prime here, their names being taken by other records of this theory.
\<close>

record ProbeConfig =
  Targets :: "string list"
  Workers' :: int
  Timeout' :: int
  FollowRedirect :: bool
  MaxRedirects :: int
  TLSVerify :: bool
  Retries' :: int
  RateLimit :: int
  UserAgent :: string
  Headers' :: "(string \<times> string) list"

record ProbeResult =
  URL :: string
  StatusCode :: int
  ContentLength :: int
  ContentType :: string
  Title :: string
  Server :: string
  Technologies :: "string list"
  Headers :: "(string \<times> string) list"
  Redirected :: bool
  FinalURL :: string
  ResponseTime :: int
  Timestamp :: string

text \<open>
  A \<open>Prober\<close> holds its configuration, an HTTP client and a rate limiter; it is modelled
  by the configuration that \<open>NewProber\<close> completes.
\<close>

definition NewProber :: "ProbeConfig \<Rightarrow> ProbeConfig" where
  "NewProber config =
     (let config = (if Workers' config = 0 then config\<lparr>Workers' := 100\<rparr> else config);
          config = (if Timeout' config = 0 then config\<lparr>Timeout' := 10\<rparr> else config);
          config = (if MaxRedirects config = 0 then config\<lparr>MaxRedirects := 5\<rparr> else config);
          config = (if Retries' config = 0 then config\<lparr>Retries' := 2\<rparr> else config);
          config = (if RateLimit config = 0 then config\<lparr>RateLimit := 500\<rparr> else config);
          config = (if UserAgent config = ''''
                    then config\<lparr>UserAgent := ''Mozilla/5.0 (Windows NT 10.0; Win64; x64) AppleWebKit/537.36 (KHTML, like Gecko) Chrome/120.0.0.0 Safari/537.36''\<rparr>
                    else config)
      in config)"

definition normalizeURL :: "string \<Rightarrow> string list" where
  "normalizeURL target =
     (let target = TrimSpace target
      in if prefix ''http://'' target \<or> prefix ''https://'' target then [target]
         else [''https://'' @ target, ''http://'' @ target])"

text \<open>
  What one \<open>GET\<close> meets outside the program. The response carries what \<open>probe\<close> reads
  of it: the status code (never negative in \<open>net/http\<close>), the declared length, the
  header, the text of the URL of the last request made (\<open>resp.Request.URL\<close>) and the
  body. An exchange either fails before the request is built, or fails in the client
  after some milliseconds, or ends with a response after some milliseconds. A fetch is
  an exchange with the wall-clock stamp taken before it, already formatted.
\<close>

record HTTPResponse =
  respStatusCode :: nat
  respContentLength :: int
  respHeader :: "(string \<times> string list) list"
  respRequestURL :: string
  respBody :: string

datatype Exchange = BadRequest | NoResponse int | Response int HTTPResponse

record Fetch =
  stamp :: string
  exchange :: Exchange

text \<open>\<open>web url k\<close> is the fetch that the \<open>k\<close>-th probe of \<open>url\<close> meets while one job is worked on.\<close>

type_synonym Web = "string \<Rightarrow> nat \<Rightarrow> Fetch"

fun Join :: "string list \<Rightarrow> string \<Rightarrow> string" where
  "Join [] sep = ''''"
| "Join [x] sep = x"
| "Join (x # y # ys) sep = x @ sep @ Join (y # ys) sep"

definition headerGet :: "(string \<times> string list) list \<Rightarrow> string \<Rightarrow> string" where
  "headerGet h key = (case map_of h key of Some (v # vs) \<Rightarrow> v | _ \<Rightarrow> '''')"

definition zeroProbeResult :: ProbeResult where
  "zeroProbeResult =
     \<lparr>URL = '''', StatusCode = 0, ContentLength = 0, ContentType = '''', Title = '''',
      Server = '''', Technologies = [], Headers = [], Redirected = False, FinalURL = '''',
      ResponseTime = 0, Timestamp = ''''\<rparr>"

text \<open>
  \<open>probe\<close>, given the fetch it meets. \<open>detectTechnologies\<close> is passed in as \<open>detect\<close>:
  nothing below depends on what it finds.
\<close>

definition probe ::
  "((string \<times> string list) list \<Rightarrow> string \<Rightarrow> string list) \<Rightarrow> Fetch \<Rightarrow> string \<Rightarrow> ProbeResult" where
  "probe detect f url =
     (let result = zeroProbeResult\<lparr>URL := url, Timestamp := stamp f\<rparr>
      in case exchange f of
           BadRequest \<Rightarrow> result
         | NoResponse ms \<Rightarrow> result\<lparr>ResponseTime := ms\<rparr>
         | Response ms resp \<Rightarrow>
             (let result = result\<lparr>ResponseTime := ms\<rparr>;
                  result = result\<lparr>StatusCode := int (respStatusCode resp)\<rparr>;
                  result = result\<lparr>ContentLength := respContentLength resp\<rparr>;
                  result = result\<lparr>Headers :=
                             map (\<lambda>(key, values). (key, Join values '', '')) (respHeader resp)\<rparr>;
                  result = result\<lparr>ContentType := headerGet (respHeader resp) ''Content-Type''\<rparr>;
                  result = result\<lparr>Server := headerGet (respHeader resp) ''Server''\<rparr>;
                  result = (if respRequestURL resp \<noteq> url
                            then result\<lparr>Redirected := True, FinalURL := respRequestURL resp\<rparr>
                            else result);
                  bodyStr = take (100 * 1024) (respBody resp);
                  result = result\<lparr>Title := extractTitle bodyStr\<rparr>;
                  result = result\<lparr>Technologies := detect (respHeader resp) bodyStr\<rparr>
              in result))"

text \<open>
  \<open>probeWithRetry\<close>, from round \<open>attempt\<close> on, with the URLs requested so far; the sleep
  of \<open>attempt * 500ms\<close> before a retry only delays it.
\<close>

function probeLoop ::
  "ProbeConfig \<Rightarrow> ((string \<times> string list) list \<Rightarrow> string \<Rightarrow> string list) \<Rightarrow> Web \<Rightarrow> string \<Rightarrow>
   nat \<Rightarrow> ProbeResult \<Rightarrow> string list \<Rightarrow> ProbeResult \<times> string list" where
  "probeLoop config detect web url attempt lastResult reqs =
     (if int attempt \<le> Retries' config then
        (let result = probe detect (web url attempt) url
         in if StatusCode result > 0 then (result, reqs @ [url])
            else probeLoop config detect web url (attempt + 1) result (reqs @ [url]))
      else (lastResult, reqs))"
  by pat_completeness auto
termination
  by (relation "measure (\<lambda>(config, detect, web, url, attempt, lastResult, reqs).
        nat (Retries' config + 1) - attempt)") auto

definition probeWithRetry ::
  "ProbeConfig \<Rightarrow> ((string \<times> string list) list \<Rightarrow> string \<Rightarrow> string list) \<Rightarrow> Web \<Rightarrow> string \<Rightarrow>
   ProbeResult \<times> string list" where
  "probeWithRetry config detect web url = probeLoop config detect web url 0 zeroProbeResult []"

text \<open>
  The loop of \<open>worker\<close> over the candidate URLs of one target: the result sent to the
  result channel, if any, and the URLs requested, in order.
\<close>

fun tryURLs ::
  "ProbeConfig \<Rightarrow> ((string \<times> string list) list \<Rightarrow> string \<Rightarrow> string list) \<Rightarrow> Web \<Rightarrow>
   string list \<Rightarrow> string list \<Rightarrow> ProbeResult option \<times> string list" where
  "tryURLs config detect web [] reqs = (None, reqs)"
| "tryURLs config detect web (url # urls) reqs =
     (case probeWithRetry config detect web url of
        (result, rs) \<Rightarrow>
          (if StatusCode result > 0 then (Some result, reqs @ rs)
           else tryURLs config detect web urls (reqs @ rs)))"

text \<open>What \<open>worker\<close> does with one target taken from the job channel.\<close>

definition workOn ::
  "ProbeConfig \<Rightarrow> ((string \<times> string list) list \<Rightarrow> string \<Rightarrow> string list) \<Rightarrow> Web \<Rightarrow> string \<Rightarrow>
   ProbeResult option \<times> string list" where
  "workOn config detect web target = tryURLs config detect web (normalizeURL target) []"

text \<open>
  \<open>Probe\<close> hands the targets to its workers and gathers what they send. As for
  \<open>Resolve\<close>, \<open>worked\<close> lists the targets whose jobs a worker carried through, in the
  order in which the workers finish them, and \<open>webs j\<close> is what the job at position
  \<open>j\<close> meets. The job channel has the size \<open>Workers * 2\<close>, a product of \<open>int\<close>;
  creating it may panic, \<open>maxchan\<close> being the largest size that the runtime accepts.
\<close>

definition Probe ::
  "int \<Rightarrow> ProbeConfig \<Rightarrow> ((string \<times> string list) list \<Rightarrow> string \<Rightarrow> string list) \<Rightarrow>
   (nat \<Rightarrow> Web) \<Rightarrow> string list \<Rightarrow> panic + ProbeResult list" where
  "Probe maxchan config detect webs worked =
     (if \<not> makechan maxchan (wrap64 (Workers' config * 2)) then Inl MakechanSizeOutOfRange
      else Inr (filter (\<lambda>result. StatusCode result > 0)
             (List.map_filter (\<lambda>(j, target). fst (workOn config detect (webs j) target))
                (enumerate 0 worked))))"

text \<open>
  The words of the specification: a URL yields a response when one of the attempts of
  \<open>probeWithRetry\<close> ends with a response of positive status code.
\<close>

definition answers :: "Fetch \<Rightarrow> bool" where
  "answers f \<longleftrightarrow> (case exchange f of Response ms resp \<Rightarrow> respStatusCode resp > 0 | _ \<Rightarrow> False)"

definition responds :: "ProbeConfig \<Rightarrow> Web \<Rightarrow> string \<Rightarrow> bool" where
  "responds config web url \<longleftrightarrow> (\<exists>k. int k \<le> Retries' config \<and> answers (web url k))"

text \<open>
  Inputs for the examples: the configuration that \<open>NewProber\<close> makes of two targets, a
  detector that finds nothing, a web where only \<open>http://example.com\<close> answers (with
  the example page), and a web where nothing answers.
\<close>

definition exampleProbeConfig :: ProbeConfig where
  "exampleProbeConfig =
     NewProber \<lparr>Targets = [''example.com'', ''gone.example.com''], Workers' = 0, Timeout' = 0,
                FollowRedirect = False, MaxRedirects = 0, TLSVerify = False, Retries' = 0,
                RateLimit = 0, UserAgent = '''', Headers' = []\<rparr>"

definition noTechnologies :: "(string \<times> string list) list \<Rightarrow> string \<Rightarrow> string list" where
  "noTechnologies h body = []"

definition exampleResponse :: "string \<Rightarrow> HTTPResponse" where
  "exampleResponse url =
     \<lparr>respStatusCode = 200, respContentLength = 43, respHeader = [(''Server'', [''nginx''])],
      respRequestURL = url, respBody = examplePage\<rparr>"

definition plainOnlyWeb :: Web where
  "plainOnlyWeb url k =
     \<lparr>stamp = ''2024-05-01T10:00:00Z'',
      exchange = (if url = ''http://example.com'' then Response 12 (exampleResponse url)
                  else NoResponse 3000)\<rparr>"

definition deadWeb :: Web where
  "deadWeb url k = \<lparr>stamp = ''2024-05-01T10:00:00Z'', exchange = NoResponse 3000\<rparr>"

definition exampleWebs :: "nat \<Rightarrow> Web" where
  "exampleWebs j = (if j = 0 then plainOnlyWeb else deadWeb)"

definition exampleProbeResult :: ProbeResult where
  "exampleProbeResult =
     \<lparr>URL = ''http://example.com'', StatusCode = 200, ContentLength = 43, ContentType = '''',
      Title = ''Home'', Server = ''nginx'', Technologies = [],
      Headers = [(''Server'', ''nginx'')], Redirected = False, FinalURL = '''',
      ResponseTime = 12, Timestamp = ''2024-05-01T10:00:00Z''\<rparr>"

section \<open>The crawler's set of seen URLs (scanner/subdomain/enumerator.go)\<close>

text \<open>
  What \<open>markSeen\<close> reads of a parsed \<open>url.URL\<close>, with the query and the fragment that
  it leaves aside. \<open>url.Parse\<close> belongs to the Go library and is a parameter \<open>parse\<close> of
  the model, \<open>None\<close> standing for its error.
\<close>

record URL_parts =
  Scheme :: string
  Host :: string
  Path :: string
  RawQuery :: string
  Fragment :: string

text \<open>A \<open>map[string]bool\<close>; reading an absent key gives \<open>false\<close>.\<close>

definition present :: "(string \<rightharpoonup> bool) \<Rightarrow> string \<Rightarrow> bool" where
  "present m k = (case m k of Some b \<Rightarrow> b | None \<Rightarrow> False)"

definition normalizedKey :: "URL_parts \<Rightarrow> string" where
  "normalizedKey parsed = Scheme parsed @ ''://'' @ Host parsed @ Path parsed"

text \<open>
  \<open>markSeen\<close> as one transition of the map \<open>seen\<close>: the body that runs between
  \<open>seenMu.Lock()\<close> and the deferred \<open>seenMu.Unlock()\<close>.
\<close>

definition markSeen ::
  "(string \<Rightarrow> URL_parts option) \<Rightarrow> (string \<rightharpoonup> bool) \<Rightarrow> string \<Rightarrow> bool \<times> (string \<rightharpoonup> bool)" where
  "markSeen parse seen urlStr =
     (case parse urlStr of
        None \<Rightarrow> (False, seen)
      | Some parsed \<Rightarrow>
          (let normalized = normalizedKey parsed
           in if present seen normalized then (False, seen)
              else (True, seen(normalized \<mapsto> True))))"

subsection \<open>Concurrent calls\<close>

text \<open>
  Any number of goroutines call \<open>markSeen\<close> on the same crawler; call number \<open>t\<close> has
  the argument \<open>urlOf t\<close>. A call is before \<open>Lock\<close>, or holds the lock before its check,
  or holds it between a check that found the key \<open>k\<close> absent and the insertion, or holds
  it with its result decided, or has returned its result. The state has the map, the
  holder of the mutex, the place of every call, and, as a record of the past only, the
  map as it was when the lock was last taken.
\<close>

datatype place = Start | Locked | Inserting string | Returning bool | Finished bool

record Seen =
  seen :: "string \<rightharpoonup> bool"
  seenMu :: "nat option"
  place_of :: "nat \<Rightarrow> place"
  snapshot :: "string \<rightharpoonup> bool"

definition initial :: "(string \<rightharpoonup> bool) \<Rightarrow> Seen" where
  "initial m = \<lparr>seen = m, seenMu = None, place_of = (\<lambda>t. Start), snapshot = m\<rparr>"

inductive step :: "(string \<Rightarrow> URL_parts option) \<Rightarrow> (nat \<Rightarrow> string) \<Rightarrow> Seen \<Rightarrow> Seen \<Rightarrow> bool"
  for parse :: "string \<Rightarrow> URL_parts option" and urlOf :: "nat \<Rightarrow> string" where
  lock:
    "place_of s t = Start \<Longrightarrow> seenMu s = None \<Longrightarrow>
     step parse urlOf s
       (s\<lparr>seenMu := Some t, place_of := (place_of s)(t := Locked), snapshot := seen s\<rparr>)"
| parse_error:
    "place_of s t = Locked \<Longrightarrow> parse (urlOf t) = None \<Longrightarrow>
     step parse urlOf s (s\<lparr>place_of := (place_of s)(t := Returning False)\<rparr>)"
| already_seen:
    "place_of s t = Locked \<Longrightarrow> parse (urlOf t) = Some parsed \<Longrightarrow>
     present (seen s) (normalizedKey parsed) \<Longrightarrow>
     step parse urlOf s (s\<lparr>place_of := (place_of s)(t := Returning False)\<rparr>)"
| is_new:
    "place_of s t = Locked \<Longrightarrow> parse (urlOf t) = Some parsed \<Longrightarrow>
     \<not> present (seen s) (normalizedKey parsed) \<Longrightarrow>
     step parse urlOf s (s\<lparr>place_of := (place_of s)(t := Inserting (normalizedKey parsed))\<rparr>)"
| insert:
    "place_of s t = Inserting k \<Longrightarrow>
     step parse urlOf s
       (s\<lparr>seen := (seen s)(k \<mapsto> True), place_of := (place_of s)(t := Returning True)\<rparr>)"
| unlock:
    "place_of s t = Returning b \<Longrightarrow>
     step parse urlOf s (s\<lparr>seenMu := None, place_of := (place_of s)(t := Finished b)\<rparr>)"

inductive reachable ::
  "(string \<Rightarrow> URL_parts option) \<Rightarrow> (nat \<Rightarrow> string) \<Rightarrow> (string \<rightharpoonup> bool) \<Rightarrow> Seen \<Rightarrow> bool"
  for parse :: "string \<Rightarrow> URL_parts option" and urlOf :: "nat \<Rightarrow> string"
    and m :: "string \<rightharpoonup> bool" where
  at_start: "reachable parse urlOf m (initial m)"
| after_step: "reachable parse urlOf m s \<Longrightarrow> step parse urlOf s s' \<Longrightarrow> reachable parse urlOf m s'"

text \<open>A call is inside the critical section when it holds the lock.\<close>

definition inside :: "place \<Rightarrow> bool" where
  "inside p \<longleftrightarrow> (case p of Start \<Rightarrow> False | Finished b \<Rightarrow> False | _ \<Rightarrow> True)"

text \<open>What a call that is under way, or over, has decided to return.\<close>

definition claims_new :: "place \<Rightarrow> bool" where
  "claims_new p \<longleftrightarrow> p = Returning True \<or> p = Finished True"

text \<open>The key of a call, when its argument parses.\<close>

definition key_of :: "(string \<Rightarrow> URL_parts option) \<Rightarrow> string \<Rightarrow> string option" where
  "key_of parse urlStr = map_option normalizedKey (parse urlStr)"

text \<open>
  What holds in every state that concurrent calls reach: exactly the holder of the mutex
  is inside the critical section; under the lock the map is as it was when the lock was
  taken, until the holder inserts its key, which is then still absent; a result, once
  decided, is the one that \<open>markSeen\<close> gives on that earlier map; a call that answers
  \<open>true\<close> has put its key, which was not in the first map, into the map; no two such
  calls have the same key; and the map only grows.
\<close>

definition seen_inv ::
  "(string \<Rightarrow> URL_parts option) \<Rightarrow> (nat \<Rightarrow> string) \<Rightarrow> (string \<rightharpoonup> bool) \<Rightarrow> Seen \<Rightarrow> bool" where
  "seen_inv parse urlOf m s \<longleftrightarrow>
     (\<forall>t. inside (place_of s t) \<longleftrightarrow> seenMu s = Some t)
   \<and> (\<forall>t. place_of s t = Locked \<longrightarrow> seen s = snapshot s)
   \<and> (\<forall>t k. place_of s t = Inserting k \<longrightarrow>
          seen s = snapshot s \<and> key_of parse (urlOf t) = Some k \<and> \<not> present (seen s) k)
   \<and> (\<forall>t b. place_of s t = Returning b \<longrightarrow>
          markSeen parse (snapshot s) (urlOf t) = (b, seen s))
   \<and> (\<forall>t. claims_new (place_of s t) \<longrightarrow>
          (\<exists>k. key_of parse (urlOf t) = Some k \<and> present (seen s) k \<and> \<not> present m k))
   \<and> (\<forall>t t'. claims_new (place_of s t) \<and> claims_new (place_of s t')
          \<and> key_of parse (urlOf t) = key_of parse (urlOf t') \<longrightarrow> t = t')
   \<and> (\<forall>k. present m k \<longrightarrow> present (seen s) k)"

text \<open>The state after call \<open>t\<close> has run from \<open>Lock\<close> to its return with no other call in between.\<close>

definition complete ::
  "(string \<Rightarrow> URL_parts option) \<Rightarrow> (nat \<Rightarrow> string) \<Rightarrow> nat \<Rightarrow> Seen \<Rightarrow> Seen" where
  "complete parse urlOf t s =
     s\<lparr>seen := snd (markSeen parse (seen s) (urlOf t)), seenMu := None,
       place_of := (place_of s)(t := Finished (fst (markSeen parse (seen s) (urlOf t)))),
       snapshot := seen s\<rparr>"

text \<open>
  Inputs for the examples: a table of parsed URLs, with the values that \<open>url.Parse\<close>
  gives for these texts. The last two are a reference with a host and no scheme, and a
  relative path.
\<close>

definition exampleParse :: "string \<Rightarrow> URL_parts option" where
  "exampleParse = map_of
     [(''https://example.com/a?x=1'',
         \<lparr>Scheme = ''https'', Host = ''example.com'', Path = ''/a'', RawQuery = ''x=1'',
          Fragment = ''''\<rparr>),
      (''https://example.com/a#top'',
         \<lparr>Scheme = ''https'', Host = ''example.com'', Path = ''/a'', RawQuery = '''',
          Fragment = ''top''\<rparr>),
      (''https://example.com/b?x=1'',
         \<lparr>Scheme = ''https'', Host = ''example.com'', Path = ''/b'', RawQuery = ''x=1'',
          Fragment = ''''\<rparr>),
      (''http://example.com/a'',
         \<lparr>Scheme = ''http'', Host = ''example.com'', Path = ''/a'', RawQuery = '''',
          Fragment = ''''\<rparr>),
      (''https://example.org/a'',
         \<lparr>Scheme = ''https'', Host = ''example.org'', Path = ''/a'', RawQuery = '''',
          Fragment = ''''\<rparr>),
      (''//example.com/a'',
         \<lparr>Scheme = '''', Host = ''example.com'', Path = ''/a'', RawQuery = '''',
          Fragment = ''''\<rparr>),
      (''example.com/a'',
         \<lparr>Scheme = '''', Host = '''', Path = ''example.com/a'', RawQuery = '''',
          Fragment = ''''\<rparr>)]"

definition twoCalls :: "nat \<Rightarrow> string" where
  "twoCalls t = (if t = 0 then ''https://example.com/a?x=1'' else ''https://example.com/a#top'')"

definition lockedByFirst :: Seen where
  "lockedByFirst =
     (initial Map.empty)\<lparr>seenMu := Some 0,
        place_of := (place_of (initial Map.empty))(0 := Locked),
        snapshot := seen (initial Map.empty)\<rparr>"

definition bothDone :: Seen where
  "bothDone =
     complete exampleParse twoCalls 1 (complete exampleParse twoCalls 0 (initial Map.empty))"
section \<open>ParallelMap (scanner/utils/concurrent.go)\<close>

text \<open>
  \<open>ParallelMap\<close> starts one goroutine for each item and waits for all of them. The
  goroutine of index \<open>i\<close> is first at its check of the context (\<open>Spawned\<close>). If the
  context is done it returns there (\<open>Skipped\<close>); otherwise it goes on to
  \<open>sem.Acquire()\<close> (\<open>Waiting\<close>). Holding a slot it runs \<open>fn\<close> on its item (\<open>Running\<close>).
  When \<open>fn\<close> has returned (\<open>Returned\<close>) it stores the result at index \<open>i\<close>, or offers
  the error to the channel \<open>errs\<close> of capacity one without blocking. Then the deferred
  calls run (\<open>Releasing\<close>): it gives the slot back and ends (\<open>Ended\<close>).
\<close>

datatype phase = Spawned | Skipped | Waiting | Running | Returned | Releasing | Ended

text \<open>
  The shared state: the phase of every goroutine, the number of slots taken in the
  semaphore, the slice \<open>results\<close>, the content of \<open>errs\<close>, whether the context is done,
  and, as a record of the past only, the indices whose call of \<open>fn\<close> has returned, in
  the order of their return, and the indices that have stored their result or offered
  their error, in that order.
\<close>

record 'r Par =
  phase_of :: "nat \<Rightarrow> phase"
  sem :: nat
  results :: "'r list"
  errs :: "error option"
  cancelled :: bool
  applied :: "nat list"
  settled :: "nat list"

text \<open>The size of the semaphore: \<open>workers\<close>, or the number of items when \<open>workers \<le> 0\<close>.\<close>

definition slots :: "'a list \<Rightarrow> int \<Rightarrow> int" where
  "slots items workers = (if workers \<le> 0 then int (length items) else workers)"

text \<open>
  The state after the goroutines are started; \<open>zero\<close> is the zero value of the result
  type, which \<open>make([]R, len(items))\<close> fills the slice with.
\<close>

definition started :: "'a list \<Rightarrow> 'r \<Rightarrow> 'r Par" where
  "started items zero =
     \<lparr>phase_of = (\<lambda>i. Spawned), sem = 0, results = replicate (length items) zero,
      errs = None, cancelled = False, applied = [], settled = []\<rparr>"

text \<open>
  The steps. The function \<open>fn\<close> is given by what it returns for an item, an error or a
  result. The context may become done at any moment and stays so. The return of \<open>fn\<close>
  and the statement after it are two steps, so that other goroutines can run in
  between.
\<close>

inductive pstep :: "'a list \<Rightarrow> ('a \<Rightarrow> error + 'r) \<Rightarrow> int \<Rightarrow> 'r Par \<Rightarrow> 'r Par \<Rightarrow> bool"
  for items :: "'a list" and fn :: "'a \<Rightarrow> error + 'r" and workers :: int where
  cancel:
    "\<not> cancelled s \<Longrightarrow> pstep items fn workers s (s\<lparr>cancelled := True\<rparr>)"
| skip:
    "i < length items \<Longrightarrow> phase_of s i = Spawned \<Longrightarrow> cancelled s \<Longrightarrow>
     pstep items fn workers s (s\<lparr>phase_of := (phase_of s)(i := Skipped)\<rparr>)"
| pass:
    "i < length items \<Longrightarrow> phase_of s i = Spawned \<Longrightarrow> \<not> cancelled s \<Longrightarrow>
     pstep items fn workers s (s\<lparr>phase_of := (phase_of s)(i := Waiting)\<rparr>)"
| acquire:
    "i < length items \<Longrightarrow> phase_of s i = Waiting \<Longrightarrow> int (sem s) < slots items workers \<Longrightarrow>
     pstep items fn workers s (s\<lparr>phase_of := (phase_of s)(i := Running), sem := sem s + 1\<rparr>)"
| return:
    "i < length items \<Longrightarrow> phase_of s i = Running \<Longrightarrow>
     pstep items fn workers s
       (s\<lparr>phase_of := (phase_of s)(i := Returned), applied := applied s @ [i]\<rparr>)"
| store:
    "i < length items \<Longrightarrow> phase_of s i = Returned \<Longrightarrow> fn (items ! i) = Inr r \<Longrightarrow>
     pstep items fn workers s
       (s\<lparr>phase_of := (phase_of s)(i := Releasing), results := (results s)[i := r],
          settled := settled s @ [i]\<rparr>)"
| send:
    "i < length items \<Longrightarrow> phase_of s i = Returned \<Longrightarrow> fn (items ! i) = Inl e \<Longrightarrow>
     pstep items fn workers s
       (s\<lparr>phase_of := (phase_of s)(i := Releasing),
          errs := (case errs s of None \<Rightarrow> Some e | Some e' \<Rightarrow> Some e'),
          settled := settled s @ [i]\<rparr>)"
| release:
    "i < length items \<Longrightarrow> phase_of s i = Releasing \<Longrightarrow>
     pstep items fn workers s (s\<lparr>phase_of := (phase_of s)(i := Ended), sem := sem s - 1\<rparr>)"

inductive running ::
  "'a list \<Rightarrow> ('a \<Rightarrow> error + 'r) \<Rightarrow> int \<Rightarrow> 'r \<Rightarrow> 'r Par \<Rightarrow> bool"
  for items :: "'a list" and fn :: "'a \<Rightarrow> error + 'r" and workers :: int and zero :: 'r where
  from_start: "running items fn workers zero (started items zero)"
| after_pstep:
    "running items fn workers zero s \<Longrightarrow> pstep items fn workers s s' \<Longrightarrow>
     running items fn workers zero s'"

text \<open>
  \<open>wg.Wait()\<close> returns when every goroutine has ended, at its check or after its
  release. \<open>ParallelMap\<close> then returns the error in \<open>errs\<close>, if there is one, and the
  slice \<open>results\<close> otherwise.
\<close>

definition all_ended :: "'a list \<Rightarrow> 'r Par \<Rightarrow> bool" where
  "all_ended items s \<longleftrightarrow> (\<forall>i<length items. phase_of s i = Ended \<or> phase_of s i = Skipped)"

definition ParallelMap_returns :: "'r Par \<Rightarrow> error + 'r list" where
  "ParallelMap_returns s = (case errs s of Some e \<Rightarrow> Inl e | None \<Rightarrow> Inr (results s))"

text \<open>
  The phases in which a goroutine holds a slot, those in which its call of \<open>fn\<close> has
  returned, and those in which it has stored its result or offered its error.
\<close>

fun holding :: "phase \<Rightarrow> bool" where
  "holding Running = True"
| "holding Returned = True"
| "holding Releasing = True"
| "holding p = False"

fun called :: "phase \<Rightarrow> bool" where
  "called Returned = True"
| "called Releasing = True"
| "called Ended = True"
| "called p = False"

fun hasSettled :: "phase \<Rightarrow> bool" where
  "hasSettled Releasing = True"
| "hasSettled Ended = True"
| "hasSettled p = False"

definition holders :: "'a list \<Rightarrow> 'r Par \<Rightarrow> nat set" where
  "holders items s = {i. i < length items \<and> holding (phase_of s i)}"

definition inside_fn :: "'a list \<Rightarrow> 'r Par \<Rightarrow> nat set" where
  "inside_fn items s = {i. i < length items \<and> phase_of s i = Running}"

text \<open>The steps that a goroutine still has to take, and their sum over the goroutines.\<close>

fun remaining :: "phase \<Rightarrow> nat" where
  "remaining Spawned = 5"
| "remaining Waiting = 4"
| "remaining Running = 3"
| "remaining Returned = 2"
| "remaining Releasing = 1"
| "remaining Ended = 0"
| "remaining Skipped = 0"

definition work_left :: "'a list \<Rightarrow> 'r Par \<Rightarrow> nat" where
  "work_left items s = (\<Sum>i<length items. remaining (phase_of s i))"

text \<open>The order of the phases in the code of a goroutine.\<close>

fun follows :: "phase \<Rightarrow> phase \<Rightarrow> bool" where
  "follows Spawned q = (q = Waiting \<or> q = Skipped)"
| "follows Waiting q = (q = Running)"
| "follows Running q = (q = Returned)"
| "follows Returned q = (q = Releasing)"
| "follows Releasing q = (q = Ended)"
| "follows Ended q = False"
| "follows Skipped q = False"

text \<open>The first error among the goroutines of a list of indices, in the order of the list.\<close>

definition first_error :: "'a list \<Rightarrow> ('a \<Rightarrow> error + 'r) \<Rightarrow> nat list \<Rightarrow> error option" where
  "first_error items fn order =
     (case filter (\<lambda>i. isl (fn (items ! i))) order of
        [] \<Rightarrow> None
      | i # rest \<Rightarrow> Some (projl (fn (items ! i))))"

text \<open>
  What holds in every state that the goroutines reach.
\<close>

definition par_inv ::
  "'a list \<Rightarrow> ('a \<Rightarrow> error + 'r) \<Rightarrow> int \<Rightarrow> 'r \<Rightarrow> 'r Par \<Rightarrow> bool" where
  "par_inv items fn workers zero s \<longleftrightarrow>
     sem s = card (holders items s)
   \<and> int (sem s) \<le> slots items workers
   \<and> length (results s) = length items
   \<and> distinct (applied s)
   \<and> set (applied s) = {i. i < length items \<and> called (phase_of s i)}
   \<and> distinct (settled s)
   \<and> set (settled s) = {i. i < length items \<and> hasSettled (phase_of s i)}
   \<and> (\<forall>i<length items. results s ! i
          = (if i \<in> set (settled s)
             then (case fn (items ! i) of Inr r \<Rightarrow> r | Inl e \<Rightarrow> zero) else zero))
   \<and> errs s = first_error items fn (settled s)
   \<and> (\<forall>i<length items. phase_of s i = Skipped \<longrightarrow> cancelled s)"

text \<open>
  The next step of the goroutine of index \<open>i\<close>, when it can take one: it has not ended,
  and if it waits for a slot, one is free. \<open>advance\<close> gives the state after that step,
  and \<open>schedule\<close> the state after the steps of a list of goroutines, one after the
  other; \<open>feasible\<close> tells whether each of them can be taken in its turn.
\<close>

definition enabled :: "'a list \<Rightarrow> int \<Rightarrow> nat \<Rightarrow> 'r Par \<Rightarrow> bool" where
  "enabled items workers i s \<longleftrightarrow>
     i < length items
     \<and> (case phase_of s i of
          Ended \<Rightarrow> False | Skipped \<Rightarrow> False
        | Waiting \<Rightarrow> int (sem s) < slots items workers
        | _ \<Rightarrow> True)"

definition advance :: "'a list \<Rightarrow> ('a \<Rightarrow> error + 'r) \<Rightarrow> nat \<Rightarrow> 'r Par \<Rightarrow> 'r Par" where
  "advance items fn i s =
     (case phase_of s i of
        Spawned \<Rightarrow>
          (if cancelled s then s\<lparr>phase_of := (phase_of s)(i := Skipped)\<rparr>
           else s\<lparr>phase_of := (phase_of s)(i := Waiting)\<rparr>)
      | Waiting \<Rightarrow> s\<lparr>phase_of := (phase_of s)(i := Running), sem := sem s + 1\<rparr>
      | Running \<Rightarrow> s\<lparr>phase_of := (phase_of s)(i := Returned), applied := applied s @ [i]\<rparr>
      | Returned \<Rightarrow>
          (case fn (items ! i) of
             Inr r \<Rightarrow>
               s\<lparr>phase_of := (phase_of s)(i := Releasing), results := (results s)[i := r],
                 settled := settled s @ [i]\<rparr>
           | Inl e \<Rightarrow>
               s\<lparr>phase_of := (phase_of s)(i := Releasing),
                 errs := (case errs s of None \<Rightarrow> Some e | Some e' \<Rightarrow> Some e'),
                 settled := settled s @ [i]\<rparr>)
      | Releasing \<Rightarrow> s\<lparr>phase_of := (phase_of s)(i := Ended), sem := sem s - 1\<rparr>
      | Ended \<Rightarrow> s
      | Skipped \<Rightarrow> s)"

fun schedule :: "'a list \<Rightarrow> ('a \<Rightarrow> error + 'r) \<Rightarrow> nat list \<Rightarrow> 'r Par \<Rightarrow> 'r Par" where
  "schedule items fn [] s = s"
| "schedule items fn (i # js) s = schedule items fn js (advance items fn i s)"

fun feasible :: "'a list \<Rightarrow> ('a \<Rightarrow> error + 'r) \<Rightarrow> int \<Rightarrow> nat list \<Rightarrow> 'r Par \<Rightarrow> bool" where
  "feasible items fn workers [] s = True"
| "feasible items fn workers (i # js) s =
     (enabled items workers i s \<and> feasible items fn workers js (advance items fn i s))"

text \<open>
  Inputs for the examples: three items, a function that multiplies by ten, one that
  fails on the item 2, and one that fails on the items 1 and 3 with two errors.
\<close>

definition tenfold :: "nat \<Rightarrow> error + nat" where
  "tenfold x = Inr (10 * x)"

definition failsOnTwo :: "nat \<Rightarrow> error + nat" where
  "failsOnTwo x = (if x = 2 then Inl (errorString 2 ''two'') else Inr (10 * x))"

definition failsOnOdd :: "nat \<Rightarrow> error + nat" where
  "failsOnOdd x =
     (if x = 1 then Inl (errorString 1 ''one'')
      else if x = 3 then Inl (errorString 3 ''three'') else Inr (10 * x))"

text \<open>
  Schedules of three goroutines on two slots. In the first the goroutines run one
  after the other, in the order 2, 0, 1. In the second the call of the goroutine 0
  returns first, but the goroutine 2 is the first to reach the channel \<open>errs\<close>.
\<close>

definition oneByOne :: "nat list" where
  "oneByOne = [2, 2, 2, 2, 2, 0, 0, 0, 0, 0, 1, 1, 1, 1, 1]"

definition overtaking :: "nat list" where
  "overtaking = [0, 0, 0, 2, 2, 2, 2, 2, 0, 0, 1, 1, 1, 1, 1]"

definition exampleRun :: "nat Par" where
  "exampleRun = schedule [1, 2, 3] tenfold oneByOne (started [1, 2, 3 :: nat] 0)"

definition failingRun :: "nat Par" where
  "failingRun = schedule [1, 2, 3] failsOnTwo oneByOne (started [1, 2, 3 :: nat] 0)"

definition raceRun :: "nat Par" where
  "raceRun = schedule [1, 2, 3] failsOnOdd overtaking (started [1, 2, 3 :: nat] 0)"

text \<open>A run of one item whose context is done before the goroutine's check.\<close>

definition cancelledRun :: "nat Par" where
  "cancelledRun = schedule [7] tenfold [0] ((started [7 :: nat] 0)\<lparr>cancelled := True\<rparr>)"
section \<open>Properties of retry with backoff\<close>

subsection \<open>The retry loop\<close>

declare retryLoop.simps [simp del]
declare digits.simps [simp del]

lemma Itoa_3: "Itoa 3 = ''3''"
  by (simp add: Itoa_def digits.simps digit_char_def)

lemma MaxRetries_withDefaults: "MaxRetries (withDefaults config) = effectiveMaxRetries config"
  by (simp add: withDefaults_def effectiveMaxRetries_def Let_def)

lemma RetryableErrors_withDefaults:
  "RetryableErrors (withDefaults config) = RetryableErrors config"
  by (simp add: withDefaults_def Let_def)

lemma withDefaults_eq:
  "withDefaults config =
     \<lparr>MaxRetries = (if MaxRetries config \<le> 0 then 3 else MaxRetries config),
      InitialDelay = (if InitialDelay config \<le> 0 then 100 * Millisecond else InitialDelay config),
      MaxDelay = (if MaxDelay config \<le> 0 then 10 * Second else MaxDelay config),
      BackoffFactor = (if BackoffFactor config \<le> 0 then 2 else BackoffFactor config),
      Jitter = Jitter config, RetryableErrors = RetryableErrors config\<rparr>"
  by (cases config) (simp add: withDefaults_def Let_def)

lemma withDefaults_MaxRetries:
  "MaxRetries config \<le> 0 \<Longrightarrow> withDefaults (config\<lparr>MaxRetries := 3\<rparr>) = withDefaults config"
  by (simp add: withDefaults_eq)

lemma withDefaults_InitialDelay:
  "InitialDelay config \<le> 0 \<Longrightarrow>
     withDefaults (config\<lparr>InitialDelay := 100 * Millisecond\<rparr>) = withDefaults config"
  by (simp add: withDefaults_eq Millisecond_def)

lemma withDefaults_MaxDelay:
  "MaxDelay config \<le> 0 \<Longrightarrow>
     withDefaults (config\<lparr>MaxDelay := 10 * Second\<rparr>) = withDefaults config"
  by (simp add: withDefaults_eq Second_def)

lemma withDefaults_BackoffFactor:
  "BackoffFactor config \<le> 0 \<Longrightarrow>
     withDefaults (config\<lparr>BackoffFactor := 2\<rparr>) = withDefaults config"
  by (simp add: withDefaults_eq)

lemma effectiveMaxRetries_pos: "0 < effectiveMaxRetries config"
  by (simp add: effectiveMaxRetries_def)

lemma not_isRetryable_iff:
  "\<not> isRetryable e rs \<longleftrightarrow> rs \<noteq> [] \<and> (\<forall>r \<in> set rs. \<not> errors_Is e r)"
  by (auto simp: isRetryable_def list_ex_iff)

text \<open>
  A product that does not fit 64 bits escapes the clamp at \<open>MaxDelay\<close>: the conversion
  gives the smallest \<open>int64\<close>, which is not above \<open>MaxDelay\<close>.
\<close>

lemma nextDelay_overflow:
  "nextDelay (DefaultRetryConfig\<lparr>BackoffFactor := 10000000000\<rparr>) (10 * Second) = MinInt64"
  by (simp add: nextDelay_def DefaultRetryConfig_def int_of_float_def trunc_def MinInt64_def
        MaxInt64_def Second_def Let_def)

lemma retryLoop_calls_le:
  "calls (retryLoop ctx config fn rnd new attempt delay lastErr n zs)
     \<le> n + (nat (MaxRetries config + 1) - attempt)"
proof (induction ctx config fn rnd new attempt delay lastErr n zs rule: retryLoop.induct)
  case (1 ctx config fn rnd new attempt delay lastErr n zs)
  show ?case
    by (subst retryLoop.simps) (use 1 in \<open>auto split: option.splits\<close>)
qed

lemma retryLoop_always_failing:
  assumes "\<forall>k. \<not> Done ctx k"
    and "\<forall>k. \<exists>e. fn k = Some e \<and> isRetryable e (RetryableErrors config)"
    and "int attempt \<le> MaxRetries config"
  shows "calls (retryLoop ctx config fn rnd new attempt delay lastErr n zs)
           = n + (nat (MaxRetries config) - attempt) + 1
       \<and> returned (retryLoop ctx config fn rnd new attempt delay lastErr n zs)
           = Some (max_retries_exceeded new (MaxRetries config)
                     (fn (n + (nat (MaxRetries config) - attempt))))"
  using assms
proof (induction ctx config fn rnd new attempt delay lastErr n zs rule: retryLoop.induct)
  case (1 ctx config fn rnd new attempt delay lastErr n zs)
  from "1.prems"(2) obtain e where e: "fn n = Some e" "isRetryable e (RetryableErrors config)"
    by blast
  show ?case
  proof (cases "int attempt = MaxRetries config")
    case True
    then show ?thesis using e "1.prems"(1)
      by (subst (1 2) retryLoop.simps) simp
  next
    case False
    with "1.prems"(3) have lt: "int (attempt + 1) \<le> MaxRetries config" by simp
    have nd: "\<not> Done ctx (2 * attempt)" "\<not> Done ctx (2 * attempt + 1)"
      using "1.prems"(1) by auto
    have IH: "calls (retryLoop ctx config fn rnd new (attempt + 1) (nextDelay config delay)
                 (Some e) (n + 1) (zs @ [currentDelay config delay (rnd attempt)]))
               = (n + 1) + (nat (MaxRetries config) - (attempt + 1)) + 1
            \<and> returned (retryLoop ctx config fn rnd new (attempt + 1) (nextDelay config delay)
                 (Some e) (n + 1) (zs @ [currentDelay config delay (rnd attempt)]))
               = Some (max_retries_exceeded new (MaxRetries config)
                     (fn ((n + 1) + (nat (MaxRetries config) - (attempt + 1)))))"
      using "1.IH"[OF "1.prems"(3) nd(1) e(1) _ False nd(2) "1.prems"(1) "1.prems"(2) lt] e(2)
      by blast
    have idx: "(n + 1) + (nat (MaxRetries config) - (attempt + 1))
                 = n + (nat (MaxRetries config) - attempt)"
      using lt by linarith
    show ?thesis
      by (subst (1 2) retryLoop.simps) (use "1.prems"(3) nd e False IH idx in simp)
  qed
qed

lemma retryLoop_not_retryable:
  assumes "int attempt \<le> MaxRetries config" "\<not> Done ctx (2 * attempt)"
    and "fn n = Some e" "\<not> isRetryable e (RetryableErrors config)"
  shows "retryLoop ctx config fn rnd new attempt delay lastErr n zs
       = \<lparr>returned = Some e, calls = n + 1, slept = zs\<rparr>"
  using assms by (subst retryLoop.simps) simp

lemma retryLoop_reaches_non_retryable:
  assumes "int (attempt + k) \<le> MaxRetries config"
    and "\<forall>i. \<not> Done ctx i"
    and "\<forall>j<k. \<exists>e'. fn (n + j) = Some e' \<and> isRetryable e' (RetryableErrors config)"
    and "fn (n + k) = Some e" "\<not> isRetryable e (RetryableErrors config)"
  shows "returned (retryLoop ctx config fn rnd new attempt delay lastErr n zs) = Some e
       \<and> calls (retryLoop ctx config fn rnd new attempt delay lastErr n zs) = n + k + 1"
  using assms
proof (induction k arbitrary: attempt delay lastErr n zs)
  case 0
  then show ?case
    using retryLoop_not_retryable[of attempt config ctx fn n e rnd new delay lastErr zs] by simp
next
  case (Suc k)
  from Suc.prems(3) obtain e' where e': "fn n = Some e'" "isRetryable e' (RetryableErrors config)"
    by force
  have later: "\<forall>j<k. \<exists>e'. fn (n + 1 + j) = Some e' \<and> isRetryable e' (RetryableErrors config)"
  proof (intro allI impI)
    fix j assume "j < k"
    then have "Suc j < Suc k" by simp
    with Suc.prems(3) show "\<exists>e'. fn (n + 1 + j) = Some e' \<and> isRetryable e' (RetryableErrors config)"
      by (metis add_Suc_right add_Suc_shift Suc_eq_plus1)
  qed
  have IH: "returned (retryLoop ctx config fn rnd new (attempt + 1) (nextDelay config delay) (Some e')
                (n + 1) (zs @ [currentDelay config delay (rnd attempt)])) = Some e
          \<and> calls (retryLoop ctx config fn rnd new (attempt + 1) (nextDelay config delay) (Some e')
                (n + 1) (zs @ [currentDelay config delay (rnd attempt)])) = n + 1 + k + 1"
    using Suc.IH[of "attempt + 1" "n + 1"] Suc.prems later by simp
  show ?case
    by (subst (1 2) retryLoop.simps) (use Suc.prems e' IH in simp)
qed

lemma RetryWithBackoff_always_failing:
  assumes "\<forall>k. \<not> Done ctx k"
    and "\<forall>k. \<exists>e. fn k = Some e \<and> isRetryable e (RetryableErrors config)"
  shows "calls (RetryWithBackoff ctx config fn rnd new) = nat (effectiveMaxRetries config) + 1
       \<and> returned (RetryWithBackoff ctx config fn rnd new)
           = Some (max_retries_exceeded new (effectiveMaxRetries config)
                     (fn (nat (effectiveMaxRetries config))))"
proof -
  have "int 0 \<le> MaxRetries (withDefaults config)"
    using effectiveMaxRetries_pos[of config] by (simp add: MaxRetries_withDefaults)
  from retryLoop_always_failing[where ctx=ctx and config="withDefaults config" and fn=fn
         and rnd=rnd and new=new and attempt=0 and delay="InitialDelay (withDefaults config)"
         and lastErr=None and n=0 and zs="[]", OF assms(1) _ this] assms(2)
  show ?thesis
    by (simp add: RetryWithBackoff_def Let_def MaxRetries_withDefaults
          RetryableErrors_withDefaults)
qed

lemma RetryWithBackoff_calls_le:
  "calls (RetryWithBackoff ctx config fn rnd new) \<le> nat (effectiveMaxRetries config) + 1"
  using retryLoop_calls_le[of ctx "withDefaults config" fn rnd new 0
          "InitialDelay (withDefaults config)" None 0 "[]"] effectiveMaxRetries_pos[of config]
  by (simp add: RetryWithBackoff_def Let_def MaxRetries_withDefaults nat_add_distrib)

subsection \<open>The number of attempts\<close>

text \<open>
  C2, as amended. For every context that is never cancelled and every \<open>RetryConfig\<close>,
  \<open>RetryWithBackoff\<close> invokes \<open>fn\<close> at most \<open>M + 1\<close> times, where \<open>M\<close> is the configured
  \<open>MaxRetries\<close> when that is positive and the default 3 otherwise. When every invocation
  fails with an error that the configuration lets retry, \<open>fn\<close> is invoked exactly
  \<open>M + 1\<close> times and the returned error wraps the failure of the last invocation, with
  the message \<open>max retries (M) exceeded: \<close> followed by that failure's message; in
  particular with \<open>MaxRetries = 3\<close> there are exactly 4 invocations and the message
  names the retry count 3.
\<close>

theorem RetryWithBackoff_attempts:
  assumes "\<forall>k. \<not> Done ctx k"
  shows "calls (RetryWithBackoff ctx config fn rnd new) \<le> nat (effectiveMaxRetries config) + 1
       \<and> ((\<forall>k. \<exists>e. fn k = Some e \<and> isRetryable e (RetryableErrors config)) \<longrightarrow>
            calls (RetryWithBackoff ctx config fn rnd new) = nat (effectiveMaxRetries config) + 1
          \<and> (\<exists>e. fn (nat (effectiveMaxRetries config)) = Some e
                \<and> returned (RetryWithBackoff ctx config fn rnd new)
                    = Some (wrapError new (''max retries ('' @ Itoa (effectiveMaxRetries config)
                                         @ '') exceeded: '' @ ErrorText e) e)))
       \<and> ((\<forall>k. \<exists>e. fn k = Some e \<and> isRetryable e (RetryableErrors config))
            \<and> MaxRetries config = 3 \<longrightarrow>
            calls (RetryWithBackoff ctx config fn rnd new) = 4
          \<and> (\<exists>e. fn 3 = Some e
                \<and> returned (RetryWithBackoff ctx config fn rnd new)
                    = Some (wrapError new (''max retries (3) exceeded: '' @ ErrorText e) e)))"
proof (intro conjI impI)
  show "calls (RetryWithBackoff ctx config fn rnd new) \<le> nat (effectiveMaxRetries config) + 1"
    by (rule RetryWithBackoff_calls_le)
next
  assume fails: "\<forall>k. \<exists>e. fn k = Some e \<and> isRetryable e (RetryableErrors config)"
  from RetryWithBackoff_always_failing[OF assms fails]
  show "calls (RetryWithBackoff ctx config fn rnd new) = nat (effectiveMaxRetries config) + 1"
    by simp
  from fails obtain e where e: "fn (nat (effectiveMaxRetries config)) = Some e" by blast
  with RetryWithBackoff_always_failing[OF assms fails, of rnd new]
  show "\<exists>e. fn (nat (effectiveMaxRetries config)) = Some e
          \<and> returned (RetryWithBackoff ctx config fn rnd new)
              = Some (wrapError new (''max retries ('' @ Itoa (effectiveMaxRetries config)
                                   @ '') exceeded: '' @ ErrorText e) e)"
    by (simp add: max_retries_exceeded_def)
next
  assume h: "(\<forall>k. \<exists>e. fn k = Some e \<and> isRetryable e (RetryableErrors config))
              \<and> MaxRetries config = 3"
  then have fails: "\<forall>k. \<exists>e. fn k = Some e \<and> isRetryable e (RetryableErrors config)"
    and m: "effectiveMaxRetries config = 3"
    by (simp_all add: effectiveMaxRetries_def)
  from RetryWithBackoff_always_failing[OF assms fails, of rnd new] m
  show "calls (RetryWithBackoff ctx config fn rnd new) = 4" by simp
  from fails obtain e where e: "fn 3 = Some e" by blast
  with RetryWithBackoff_always_failing[OF assms fails, of rnd new] m
  show "\<exists>e. fn 3 = Some e
          \<and> returned (RetryWithBackoff ctx config fn rnd new)
              = Some (wrapError new (''max retries (3) exceeded: '' @ ErrorText e) e)"
    by (simp add: max_retries_exceeded_def Itoa_3)
qed

theorem RetryWithBackoff_attempts_witness:
  "calls (RetryWithBackoff Background DefaultRetryConfig
            (alwaysFailing (errorString 1 ''timeout'')) zeroDraws 9) = 4
   \<and> returned (RetryWithBackoff Background DefaultRetryConfig
            (alwaysFailing (errorString 1 ''timeout'')) zeroDraws 9)
       = Some (wrapError 9 ''max retries (3) exceeded: timeout'' (errorString 1 ''timeout''))"
  using RetryWithBackoff_attempts[of Background DefaultRetryConfig
          "alwaysFailing (errorString 1 ''timeout'')" zeroDraws 9]
  by (simp add: Background_def DefaultRetryConfig_def alwaysFailing_def isRetryable_def
        effectiveMaxRetries_def Itoa_3)

text \<open>
  The claim as first stated, at most \<open>MaxRetries + 1\<close> invocations for every
  \<open>RetryConfig\<close>, fails for a configuration with \<open>MaxRetries = 0\<close>: the function is
  invoked 4 times, not once.
\<close>

theorem RetryWithBackoff_attempts_counterexample:
  "calls (RetryWithBackoff Background (DefaultRetryConfig\<lparr>MaxRetries := 0\<rparr>)
            (alwaysFailing (errorString 1 ''timeout'')) zeroDraws 9) = 4
   \<and> \<not> calls (RetryWithBackoff Background (DefaultRetryConfig\<lparr>MaxRetries := 0\<rparr>)
            (alwaysFailing (errorString 1 ''timeout'')) zeroDraws 9)
         \<le> nat (MaxRetries (DefaultRetryConfig\<lparr>MaxRetries := 0\<rparr>) + 1)"
  by (simp add: RetryWithBackoff_def Let_def withDefaults_eq DefaultRetryConfig_def
        Background_def alwaysFailing_def isRetryable_def retryLoop.simps)

subsection \<open>Errors that are not retryable\<close>

text \<open>
  What \<open>errors.Is\<close> matches: the targets that are one of the objects on the error's
  chain of \<open>Unwrap\<close>, the error itself first. An error of the same text at another
  address is another object and matches nothing.
\<close>

lemma errors_Is_iff: "errors_Is e r \<longleftrightarrow> (\<exists>t \<in> set (chain e). r = Some t)"
proof (cases r)
  case None
  then show ?thesis by simp
next
  case (Some t)
  have "errors_Is e (Some t) \<longleftrightarrow> t \<in> set (chain e)"
    by (induction e) auto
  with Some show ?thesis by auto
qed

lemma errors_Is_other_object:
  "a \<noteq> b \<Longrightarrow> \<not> errors_Is (errorString a s) (Some (errorString b s))"
  by simp

text \<open>
  C9. For every \<open>RetryConfig\<close> whose \<open>RetryableErrors\<close> is not empty: if \<open>fn\<close>, once
  invoked, returns an error that \<open>errors.Is\<close> matches with no element of the set, then
  \<open>RetryWithBackoff\<close> returns that very error at once, after that single call, without
  sleeping and with no further attempt; and more generally, when the invocation number
  \<open>k\<close> is the first to return such an error (the earlier ones having failed with
  retryable errors, within the retry budget and with no cancellation), that error is
  returned after \<open>k + 1\<close> calls. For every \<open>RetryConfig\<close> whose \<open>RetryableErrors\<close> is
  empty, every error is retryable: a function that fails at every invocation uses up
  all the attempts. As to what \<open>errors.Is\<close> matches: an error matches itself, an error
  that wraps a matching error matches, an error matches no other object of the same
  text, and nothing matches \<open>nil\<close>.
\<close>

theorem RetryWithBackoff_non_retryable:
  "(RetryableErrors config \<noteq> [] \<and> (\<forall>r \<in> set (RetryableErrors config). \<not> errors_Is e r)
      \<and> \<not> Done ctx 0 \<and> fn 0 = Some e \<longrightarrow>
      RetryWithBackoff ctx config fn rnd new = \<lparr>returned = Some e, calls = 1, slept = []\<rparr>)
   \<and> (RetryableErrors config \<noteq> [] \<and> (\<forall>r \<in> set (RetryableErrors config). \<not> errors_Is e r)
      \<and> (\<forall>i. \<not> Done ctx i) \<and> int k \<le> effectiveMaxRetries config
      \<and> (\<forall>j<k. \<exists>e'. fn j = Some e' \<and> isRetryable e' (RetryableErrors config))
      \<and> fn k = Some e \<longrightarrow>
      returned (RetryWithBackoff ctx config fn rnd new) = Some e
      \<and> calls (RetryWithBackoff ctx config fn rnd new) = k + 1)
   \<and> (RetryableErrors config = [] \<longrightarrow> isRetryable e (RetryableErrors config))
   \<and> (RetryableErrors config = [] \<and> (\<forall>i. \<not> Done ctx i) \<and> (\<forall>j. fn j \<noteq> None) \<longrightarrow>
      calls (RetryWithBackoff ctx config fn rnd new) = nat (effectiveMaxRetries config) + 1)
   \<and> errors_Is e (Some e)
   \<and> (errors_Is e r \<longrightarrow> errors_Is (wrapError a msg e) r)
   \<and> (a \<noteq> b \<longrightarrow> \<not> errors_Is (errorString a s) (Some (errorString b s)))
   \<and> \<not> errors_Is e None"
    (is "?first \<and> ?general \<and> ?empty \<and> ?exhaust \<and> ?self \<and> ?wrapped \<and> ?other \<and> ?nil")
proof -
  have first: ?first
  proof
    assume h: "RetryableErrors config \<noteq> []
      \<and> (\<forall>r \<in> set (RetryableErrors config). \<not> errors_Is e r) \<and> \<not> Done ctx 0 \<and> fn 0 = Some e"
    then have nr: "\<not> isRetryable e (RetryableErrors (withDefaults config))"
      by (simp add: not_isRetryable_iff RetryableErrors_withDefaults)
    have "int 0 \<le> MaxRetries (withDefaults config)"
      using effectiveMaxRetries_pos[of config] by (simp add: MaxRetries_withDefaults)
    from retryLoop_not_retryable[where ctx=ctx and fn=fn and n=0 and rnd=rnd and new=new
           and delay="InitialDelay (withDefaults config)" and lastErr=None and zs="[]",
           OF this _ _ nr] h
    show "RetryWithBackoff ctx config fn rnd new = \<lparr>returned = Some e, calls = 1, slept = []\<rparr>"
      by (simp add: RetryWithBackoff_def Let_def)
  qed
  have general: ?general
  proof
    assume h: "RetryableErrors config \<noteq> []
      \<and> (\<forall>r \<in> set (RetryableErrors config). \<not> errors_Is e r)
      \<and> (\<forall>i. \<not> Done ctx i) \<and> int k \<le> effectiveMaxRetries config
      \<and> (\<forall>j<k. \<exists>e'. fn j = Some e' \<and> isRetryable e' (RetryableErrors config))
      \<and> fn k = Some e"
    then have nr: "\<not> isRetryable e (RetryableErrors (withDefaults config))"
      by (simp add: not_isRetryable_iff RetryableErrors_withDefaults)
    from h have a: "int (0 + k) \<le> MaxRetries (withDefaults config)"
      and b: "\<forall>i. \<not> Done ctx i"
      and c: "\<forall>j<k. \<exists>e'. fn (0 + j) = Some e'
                 \<and> isRetryable e' (RetryableErrors (withDefaults config))"
      and d: "fn (0 + k) = Some e"
      by (simp_all add: MaxRetries_withDefaults RetryableErrors_withDefaults)
    from retryLoop_reaches_non_retryable[where rnd=rnd and new=new
           and delay="InitialDelay (withDefaults config)" and lastErr=None and zs="[]",
           OF a b c d nr]
    show "returned (RetryWithBackoff ctx config fn rnd new) = Some e
        \<and> calls (RetryWithBackoff ctx config fn rnd new) = k + 1"
      by (simp add: RetryWithBackoff_def Let_def)
  qed
  have empty: ?empty
    by (simp add: isRetryable_def)
  have exhaust: ?exhaust
  proof
    assume h: "RetryableErrors config = [] \<and> (\<forall>i. \<not> Done ctx i) \<and> (\<forall>j. fn j \<noteq> None)"
    then have "\<forall>k. \<exists>e. fn k = Some e \<and> isRetryable e (RetryableErrors config)"
      by (simp add: isRetryable_def)
    with h RetryWithBackoff_always_failing[of ctx fn config rnd new]
    show "calls (RetryWithBackoff ctx config fn rnd new) = nat (effectiveMaxRetries config) + 1"
      by simp
  qed
  have self: ?self by (cases e) simp_all
  have wrapped: ?wrapped by (cases r) simp_all
  have other: ?other by simp
  have nil: ?nil by simp
  from first general empty exhaust self wrapped other nil show ?thesis by (intro conjI)
qed

text \<open>
  Runs with \<open>MaxRetries = 3\<close> where only the object \<open>temporary\<close> may be retried. A
  function that makes a new error of the text \<open>temporary\<close> at each invocation is not
  retried: its error is another object. One that first returns the listed object and
  then an error \<open>fatal\<close> is called twice. One that returns the listed object, or wraps
  it, at every invocation is called four times. With no set of retryable errors, the
  error \<open>fatal\<close> is retried.
\<close>

theorem RetryWithBackoff_non_retryable_witness:
  "RetryWithBackoff Background (DefaultRetryConfig\<lparr>RetryableErrors := [Some temporary]\<rparr>)
      freshTemporary zeroDraws 9
     = \<lparr>returned = Some (errorString 10 ''temporary''), calls = 1, slept = []\<rparr>
   \<and> returned (RetryWithBackoff Background
        (DefaultRetryConfig\<lparr>RetryableErrors := [Some temporary]\<rparr>)
        (\<lambda>k. if k = 0 then Some temporary else Some (errorString 5 ''fatal'')) zeroDraws 9)
       = Some (errorString 5 ''fatal'')
   \<and> calls (RetryWithBackoff Background
        (DefaultRetryConfig\<lparr>RetryableErrors := [Some temporary]\<rparr>)
        (\<lambda>k. if k = 0 then Some temporary else Some (errorString 5 ''fatal'')) zeroDraws 9)
       = 2
   \<and> calls (RetryWithBackoff Background
        (DefaultRetryConfig\<lparr>RetryableErrors := [Some temporary]\<rparr>) sameTemporary zeroDraws 9)
       = 4
   \<and> calls (RetryWithBackoff Background
        (DefaultRetryConfig\<lparr>RetryableErrors := [Some temporary]\<rparr>) wrappedTemporary
        zeroDraws 9) = 4
   \<and> isRetryable (errorString 5 ''fatal'') (RetryableErrors DefaultRetryConfig)
   \<and> calls (RetryWithBackoff Background DefaultRetryConfig
        (alwaysFailing (errorString 5 ''fatal'')) zeroDraws 9) = 4"
proof -
  let ?c = "DefaultRetryConfig\<lparr>RetryableErrors := [Some temporary]\<rparr>"
  let ?f = "\<lambda>k::nat. if k = 0 then Some temporary else Some (errorString 5 ''fatal'')"
  have 1: "RetryWithBackoff Background ?c freshTemporary zeroDraws 9
     = \<lparr>returned = Some (errorString 10 ''temporary''), calls = 1, slept = []\<rparr>"
    using RetryWithBackoff_non_retryable[where config="?c" and e="errorString 10 ''temporary''"
            and ctx=Background and fn=freshTemporary and rnd=zeroDraws and new=9 and k=0
            and r=None and a=0 and b=0 and msg="[]" and s="[]"]
    by (simp add: Background_def DefaultRetryConfig_def freshTemporary_def temporary_def)
  have 2: "returned (RetryWithBackoff Background ?c ?f zeroDraws 9)
             = Some (errorString 5 ''fatal'')
         \<and> calls (RetryWithBackoff Background ?c ?f zeroDraws 9) = 2"
    using RetryWithBackoff_non_retryable[where config="?c" and e="errorString 5 ''fatal''"
            and ctx=Background and fn="?f" and rnd=zeroDraws and new=9 and k=1
            and r=None and a=0 and b=0 and msg="[]" and s="[]"]
    by (simp add: Background_def DefaultRetryConfig_def temporary_def isRetryable_def
          effectiveMaxRetries_def)
  have 3: "calls (RetryWithBackoff Background ?c sameTemporary zeroDraws 9) = 4"
    by (simp add: RetryWithBackoff_def Let_def withDefaults_eq DefaultRetryConfig_def
          Background_def sameTemporary_def temporary_def isRetryable_def retryLoop.simps)
  have 4: "calls (RetryWithBackoff Background ?c wrappedTemporary zeroDraws 9) = 4"
    by (simp add: RetryWithBackoff_def Let_def withDefaults_eq DefaultRetryConfig_def
          Background_def wrappedTemporary_def temporary_def isRetryable_def retryLoop.simps)
  have 5: "isRetryable (errorString 5 ''fatal'') (RetryableErrors DefaultRetryConfig)
         \<and> calls (RetryWithBackoff Background DefaultRetryConfig
              (alwaysFailing (errorString 5 ''fatal'')) zeroDraws 9) = 4"
    using RetryWithBackoff_non_retryable[where config=DefaultRetryConfig
            and e="errorString 5 ''fatal''" and ctx=Background
            and fn="alwaysFailing (errorString 5 ''fatal'')" and rnd=zeroDraws and new=9
            and k=0 and r=None and a=0 and b=0 and msg="[]" and s="[]"]
    by (simp add: Background_def DefaultRetryConfig_def alwaysFailing_def
          effectiveMaxRetries_def)
  from 1 2 3 4 5 show ?thesis by simp
qed

subsection \<open>Defaults for non-positive fields\<close>

text \<open>
  C10, as amended. For every \<open>RetryConfig\<close> with \<open>MaxRetries \<le> 0\<close>, the zero value
  included, \<open>RetryWithBackoff\<close> puts the default 3 in its place before running: the run
  is the one of the configuration with \<open>MaxRetries = 3\<close>. So \<open>fn\<close> is invoked at most 4
  times, and exactly 4 times when the context is never done and every invocation fails
  with an error that the configuration lets retry, although the caller asked for no
  retry; with an empty \<open>RetryableErrors\<close>, the zero value included, that is every
  function that always fails. A non-positive \<open>InitialDelay\<close>, \<open>MaxDelay\<close> or
  \<open>BackoffFactor\<close> is replaced likewise, by 100 ms, 10 s and 2.0: the run is the one of
  the configuration with that value.
\<close>

theorem RetryWithBackoff_defaults:
  "(MaxRetries config \<le> 0 \<longrightarrow>
      RetryWithBackoff ctx config fn rnd new
        = RetryWithBackoff ctx (config\<lparr>MaxRetries := 3\<rparr>) fn rnd new)
   \<and> (MaxRetries config \<le> 0 \<longrightarrow> calls (RetryWithBackoff ctx config fn rnd new) \<le> 4)
   \<and> (MaxRetries config \<le> 0 \<and> (\<forall>i. \<not> Done ctx i)
        \<and> (\<forall>k. \<exists>e. fn k = Some e \<and> isRetryable e (RetryableErrors config)) \<longrightarrow>
      calls (RetryWithBackoff ctx config fn rnd new) = 4)
   \<and> (MaxRetries config \<le> 0 \<and> (\<forall>i. \<not> Done ctx i) \<and> RetryableErrors config = []
        \<and> (\<forall>k. fn k \<noteq> None) \<longrightarrow>
      calls (RetryWithBackoff ctx config fn rnd new) = 4)
   \<and> (InitialDelay config \<le> 0 \<longrightarrow>
      RetryWithBackoff ctx config fn rnd new
        = RetryWithBackoff ctx (config\<lparr>InitialDelay := 100 * Millisecond\<rparr>) fn rnd new)
   \<and> (MaxDelay config \<le> 0 \<longrightarrow>
      RetryWithBackoff ctx config fn rnd new
        = RetryWithBackoff ctx (config\<lparr>MaxDelay := 10 * Second\<rparr>) fn rnd new)
   \<and> (BackoffFactor config \<le> 0 \<longrightarrow>
      RetryWithBackoff ctx config fn rnd new
        = RetryWithBackoff ctx (config\<lparr>BackoffFactor := 2\<rparr>) fn rnd new)"
    (is "?run \<and> ?most \<and> ?four \<and> ?zero \<and> ?initial \<and> ?maxd \<and> ?factor")
proof -
  have run: ?run
    by (simp add: RetryWithBackoff_def withDefaults_MaxRetries)
  have most: ?most
    using RetryWithBackoff_calls_le[of ctx config fn rnd new]
    by (cases "MaxRetries config \<le> 0") (simp_all add: effectiveMaxRetries_def)
  have four: ?four
    using RetryWithBackoff_always_failing[of ctx fn config rnd new]
    by (simp add: effectiveMaxRetries_def)
  have zero: ?zero
  proof
    assume h: "MaxRetries config \<le> 0 \<and> (\<forall>i. \<not> Done ctx i) \<and> RetryableErrors config = []
        \<and> (\<forall>k. fn k \<noteq> None)"
    then have "\<forall>k. \<exists>e. fn k = Some e \<and> isRetryable e (RetryableErrors config)"
      by (simp add: isRetryable_def)
    with h RetryWithBackoff_always_failing[of ctx fn config rnd new]
    show "calls (RetryWithBackoff ctx config fn rnd new) = 4"
      by (simp add: effectiveMaxRetries_def)
  qed
  have initial: ?initial
    by (simp add: RetryWithBackoff_def withDefaults_InitialDelay)
  have maxd: ?maxd
    by (simp add: RetryWithBackoff_def withDefaults_MaxDelay)
  have factor: ?factor
    by (simp add: RetryWithBackoff_def withDefaults_BackoffFactor)
  from run most four zero initial maxd factor show ?thesis by (intro conjI)
qed

text \<open>
  The zero-value configuration: four invocations, and sleeps of 100, 200 and 400 ms
  between them, as with the defaults.
\<close>

lemma RetryWithBackoff_explicit_defaults:
  "RetryWithBackoff Background
      \<lparr>MaxRetries = 3, InitialDelay = 100 * Millisecond, MaxDelay = 10 * Second,
       BackoffFactor = 2, Jitter = False, RetryableErrors = []\<rparr>
      (alwaysFailing (errorString 1 ''refused'')) zeroDraws 9
   = \<lparr>returned = Some (wrapError 9 ''max retries (3) exceeded: refused''
                         (errorString 1 ''refused'')),
      calls = 4,
      slept = [100 * Millisecond, 200 * Millisecond, 400 * Millisecond]\<rparr>"
  by (simp add: RetryWithBackoff_def Let_def withDefaults_eq Background_def
        alwaysFailing_def isRetryable_def retryLoop.simps max_retries_exceeded_def Itoa_3
        currentDelay_def nextDelay_def int_of_float_def trunc_def MinInt64_def
        MaxInt64_def Millisecond_def Second_def)

theorem RetryWithBackoff_defaults_witness:
  "RetryWithBackoff Background zeroRetryConfig (alwaysFailing (errorString 1 ''refused''))
      zeroDraws 9
   = \<lparr>returned = Some (wrapError 9 ''max retries (3) exceeded: refused''
                         (errorString 1 ''refused'')),
      calls = 4,
      slept = [100 * Millisecond, 200 * Millisecond, 400 * Millisecond]\<rparr>"
proof -
  let ?f = "alwaysFailing (errorString 1 ''refused'')"
  have 1: "RetryWithBackoff Background zeroRetryConfig ?f zeroDraws 9
         = RetryWithBackoff Background (zeroRetryConfig\<lparr>MaxRetries := 3\<rparr>) ?f zeroDraws 9"
    using RetryWithBackoff_defaults[of zeroRetryConfig Background ?f zeroDraws 9]
    by (simp add: zeroRetryConfig_def)
  have 2: "RetryWithBackoff Background (zeroRetryConfig\<lparr>MaxRetries := 3\<rparr>) ?f zeroDraws 9
         = RetryWithBackoff Background
             (zeroRetryConfig\<lparr>MaxRetries := 3, InitialDelay := 100 * Millisecond\<rparr>)
             ?f zeroDraws 9"
    using RetryWithBackoff_defaults[of "zeroRetryConfig\<lparr>MaxRetries := 3\<rparr>" Background ?f
            zeroDraws 9]
    by (simp add: zeroRetryConfig_def)
  have 3: "RetryWithBackoff Background
             (zeroRetryConfig\<lparr>MaxRetries := 3, InitialDelay := 100 * Millisecond\<rparr>)
             ?f zeroDraws 9
         = RetryWithBackoff Background
             (zeroRetryConfig\<lparr>MaxRetries := 3, InitialDelay := 100 * Millisecond,
                MaxDelay := 10 * Second\<rparr>) ?f zeroDraws 9"
    using RetryWithBackoff_defaults[of
            "zeroRetryConfig\<lparr>MaxRetries := 3, InitialDelay := 100 * Millisecond\<rparr>"
            Background ?f zeroDraws 9]
    by (simp add: zeroRetryConfig_def)
  have 4: "RetryWithBackoff Background
             (zeroRetryConfig\<lparr>MaxRetries := 3, InitialDelay := 100 * Millisecond,
                MaxDelay := 10 * Second\<rparr>) ?f zeroDraws 9
         = RetryWithBackoff Background
             (zeroRetryConfig\<lparr>MaxRetries := 3, InitialDelay := 100 * Millisecond,
                MaxDelay := 10 * Second, BackoffFactor := 2\<rparr>) ?f zeroDraws 9"
    using RetryWithBackoff_defaults[of
            "zeroRetryConfig\<lparr>MaxRetries := 3, InitialDelay := 100 * Millisecond,
                MaxDelay := 10 * Second\<rparr>" Background ?f zeroDraws 9]
    by (simp add: zeroRetryConfig_def)
  have 5: "zeroRetryConfig\<lparr>MaxRetries := 3, InitialDelay := 100 * Millisecond,
                MaxDelay := 10 * Second, BackoffFactor := 2\<rparr>
         = \<lparr>MaxRetries = 3, InitialDelay = 100 * Millisecond, MaxDelay = 10 * Second,
            BackoffFactor = 2, Jitter = False, RetryableErrors = []\<rparr>"
    by (simp add: zeroRetryConfig_def)
  show ?thesis
    unfolding 1 2 3 4 5 by (rule RetryWithBackoff_explicit_defaults)
qed

text \<open>
  The claim as first stated, four invocations of an always-failing function for every
  \<open>RetryConfig\<close> with \<open>MaxRetries \<le> 0\<close>, fails in two ways. With the zero value but for
  a set of retryable errors, a function that always fails with an error outside the
  set is invoked once. With the zero value and a context that is done, it is not
  invoked at all.
\<close>

theorem RetryWithBackoff_defaults_counterexample:
  "MaxRetries (zeroRetryConfig\<lparr>RetryableErrors := [Some temporary]\<rparr>) = 0
   \<and> calls (RetryWithBackoff Background (zeroRetryConfig\<lparr>RetryableErrors := [Some temporary]\<rparr>)
        (alwaysFailing (errorString 5 ''fatal'')) zeroDraws 9) = 1
   \<and> returned (RetryWithBackoff Background
        (zeroRetryConfig\<lparr>RetryableErrors := [Some temporary]\<rparr>)
        (alwaysFailing (errorString 5 ''fatal'')) zeroDraws 9) = Some (errorString 5 ''fatal'')
   \<and> MaxRetries zeroRetryConfig = 0
   \<and> calls (RetryWithBackoff Cancelled zeroRetryConfig
        (alwaysFailing (errorString 5 ''fatal'')) zeroDraws 9) = 0"
  by (simp add: RetryWithBackoff_def Let_def withDefaults_eq zeroRetryConfig_def
        Background_def Cancelled_def alwaysFailing_def temporary_def isRetryable_def
        retryLoop.simps)
section \<open>Properties of the circuit breaker\<close>

lemma cb_inv_New: "cb_inv (NewCircuitBreaker m t)"
  by (simp add: cb_inv_def NewCircuitBreaker_def)

lemma cb_inv_Execute: "cb_inv cb \<Longrightarrow> cb_inv (after (Execute cb now r now' new))"
  by (auto simp: cb_inv_def Execute_def admit_def settle_def Let_def split: option.splits)

lemma cb_inv_ExecuteAll: "cb_inv cb \<Longrightarrow> cb_inv (ExecuteAll cb cs)"
  by (induction cb cs rule: ExecuteAll.induct) (simp_all add: cb_inv_Execute)

lemma params_Execute:
  "maxFailures (after (Execute cb now r now' new)) = maxFailures cb"
  "resetTimeout (after (Execute cb now r now' new)) = resetTimeout cb"
  by (auto simp: Execute_def admit_def settle_def Let_def split: option.splits)

lemma params_ExecuteAll:
  "maxFailures (ExecuteAll cb cs) = maxFailures cb \<and> resetTimeout (ExecuteAll cb cs) = resetTimeout cb"
  by (induction cb cs rule: ExecuteAll.induct) (simp_all add: params_Execute)

lemma ExecuteAll_append: "ExecuteAll cb (cs @ ds) = ExecuteAll (ExecuteAll cb cs) ds"
  by (induction cb cs rule: ExecuteAll.induct) simp_all

lemma failureTimes_append:
  "failureTimes cb (cs @ ds) = failureTimes cb cs @ failureTimes (ExecuteAll cb cs) ds"
  by (induction cb cs rule: ExecuteAll.induct) simp_all

text \<open>
  The field \<open>lastFailureTime\<close> holds the time of the last failure, once there is one,
  and a breaker does not open without a failure.
\<close>

lemma lastFailureTime_is_last:
  assumes "state cb = ''closed''"
  shows "(failureTimes cb cs \<noteq> [] \<longrightarrow> lastFailureTime (ExecuteAll cb cs) = last (failureTimes cb cs))
       \<and> (state (ExecuteAll cb cs) \<noteq> ''closed'' \<longrightarrow> failureTimes cb cs \<noteq> [])"
proof (induction cs rule: rev_induct)
  case Nil
  then show ?case using assms by simp
next
  case (snoc c cs)
  obtain now r now' new where c: "c = (now, r, now', new)" by (cases c) auto
  let ?cb = "ExecuteAll cb cs"
  show ?case
  proof (cases "invoked (Execute ?cb now r now' new) \<and> r \<noteq> None")
    case True
    then obtain e where r: "r = Some e" by auto
    from True have "lastFailureTime (after (Execute ?cb now r now' new)) = now'"
      by (auto simp: r Execute_def admit_def settle_def Let_def split: if_splits)
    with True show ?thesis
      by (simp add: c ExecuteAll_append failureTimes_append)
  next
    case False
    have same: "lastFailureTime (after (Execute ?cb now r now' new)) = lastFailureTime ?cb"
      using False
      by (auto simp: Execute_def admit_def settle_def Let_def split: if_splits option.splits)
    have st: "state (after (Execute ?cb now r now' new)) \<noteq> ''closed'' \<longrightarrow> state ?cb \<noteq> ''closed''"
      using False
      by (auto simp: Execute_def admit_def settle_def Let_def split: if_splits option.splits)
    from False have ft: "failureTimes cb (cs @ [c]) = failureTimes cb cs"
      by (simp add: c failureTimes_append)
    show ?thesis
      using snoc same st unfolding ft by (simp add: c ExecuteAll_append)
  qed
qed

lemma failures_below:
  assumes "state cb = ''closed''" "\<forall>c \<in> set fs. fst (snd c) \<noteq> None"
    "failures cb + int (length fs) < maxFailures cb"
  shows "state (ExecuteAll cb fs) = ''closed'' \<and> failures (ExecuteAll cb fs) = failures cb + int (length fs)
     \<and> maxFailures (ExecuteAll cb fs) = maxFailures cb"
  using assms
proof (induction cb fs rule: ExecuteAll.induct)
  case (1 cb)
  then show ?case by simp
next
  case (2 cb now r now' new cs)
  from "2.prems" obtain e where r: "r = Some e" by auto
  let ?cb = "after (Execute cb now r now' new)"
  have s: "state ?cb = ''closed''" "failures ?cb = failures cb + 1" "maxFailures ?cb = maxFailures cb"
    using "2.prems" r by (auto simp: Execute_def admit_def settle_def Let_def)
  from "2.IH"[OF s(1)] "2.prems" s show ?case by simp
qed

lemma failures_reach:
  assumes "state cb = ''closed''" "failures cb = 0" "fs \<noteq> []" "int (length fs) = maxFailures cb"
    "\<forall>c \<in> set fs. fst (snd c) \<noteq> None"
  shows "state (ExecuteAll cb fs) = ''open''
       \<and> lastFailureTime (ExecuteAll cb fs) = failedAt (last fs)"
proof -
  from assms(3) obtain gs c where fs: "fs = gs @ [c]" by (metis rev_exhaust)
  obtain now r now' new where c: "c = (now, r, now', new)" by (cases c) auto
  from assms(5) fs c obtain e where r: "r = Some e" by auto
  have b: "state (ExecuteAll cb gs) = ''closed'' \<and> failures (ExecuteAll cb gs) = failures cb + int (length gs)
     \<and> maxFailures (ExecuteAll cb gs) = maxFailures cb"
    using failures_below[of cb gs] assms fs by simp
  then show ?thesis
    using assms(2,4) fs c r
    by (simp add: ExecuteAll_append Execute_def admit_def settle_def Let_def failedAt_def)
qed

lemma failures_before:
  assumes "state cb = ''closed''" "failures cb = 0" "int (length fs) = maxFailures cb"
    "\<forall>c \<in> set fs. fst (snd c) \<noteq> None" "k < length fs"
  shows "state (ExecuteAll cb (take k fs)) = ''closed''"
proof -
  have "\<forall>c \<in> set (take k fs). fst (snd c) \<noteq> None"
    using assms(4) by (meson in_set_takeD)
  then show ?thesis
    using failures_below[of cb "take k fs"] assms by simp
qed

text \<open>
  C3. The breaker is a machine over the three states \<open>closed\<close>, \<open>open\<close> and
  \<open>half-open\<close>. For every breaker \<open>cb\<close> that \<open>NewCircuitBreaker\<close> and any sequence of
  \<open>Execute\<close> calls produce: it starts closed; between calls it is closed or open, and
  the wrapped function, when invoked, finds it closed or half-open. Every call that
  invokes the function and gets an error records the time of that failure, so that the
  field \<open>lastFailureTime\<close> of an open breaker is the time of the last failure. From
  closed with no failure counted, \<open>maxFailures\<close> consecutive failures leave the breaker
  open, fewer leave it closed, and the next call within \<open>resetTimeout\<close> of the last of
  these failures is rejected. While the breaker is open and no more than \<open>resetTimeout\<close>
  has passed since the last failure, \<open>Execute\<close> returns the error
  \<open>circuit breaker is open\<close> without invoking the function and changes nothing; once
  more than \<open>resetTimeout\<close> has passed, \<open>Execute\<close> moves to half-open and invokes the
  function once: its success closes the breaker and sets the failure counter to zero,
  its failure reopens the breaker with the time of that failure, so that the next call
  within \<open>resetTimeout\<close> is rejected; and a success while closed sets the failure
  counter to zero as well. A failure while closed adds one to the counter and opens the
  breaker exactly when the counter reaches \<open>maxFailures\<close>.
\<close>

theorem CircuitBreaker_state_machine:
  assumes "cb = ExecuteAll (NewCircuitBreaker m t) history"
  shows "State (NewCircuitBreaker m t) = ''closed''
   \<and> (State cb = ''closed'' \<or> State cb = ''open'')
   \<and> (invoked (Execute cb now r now' new) \<longrightarrow>
        during (Execute cb now r now' new) = ''closed''
        \<or> during (Execute cb now r now' new) = ''half-open'')
   \<and> (invoked (Execute cb now r now' new) \<and> r \<noteq> None \<longrightarrow>
        lastFailureTime (after (Execute cb now r now' new)) = now')
   \<and> (State cb = ''open'' \<longrightarrow>
        failureTimes (NewCircuitBreaker m t) history \<noteq> []
        \<and> lastFailureTime cb = last (failureTimes (NewCircuitBreaker m t) history))
   \<and> (State cb = ''closed'' \<and> failures cb = 0 \<and> fs \<noteq> [] \<and> int (length fs) = maxFailures cb
        \<and> (\<forall>c \<in> set fs. fst (snd c) \<noteq> None) \<longrightarrow>
        State (ExecuteAll cb fs) = ''open''
        \<and> (\<forall>k<length fs. State (ExecuteAll cb (take k fs)) = ''closed'')
        \<and> lastFailureTime (ExecuteAll cb fs) = failedAt (last fs)
        \<and> (now2 - failedAt (last fs) \<le> t \<longrightarrow>
             Execute (ExecuteAll cb fs) now2 r2 now2' new2
               = \<lparr>errReturned = Some (errorString new2 ''circuit breaker is open''),
                  invoked = False, during = ''open'', after = ExecuteAll cb fs\<rparr>))
   \<and> (State cb = ''open''
        \<and> now - last (failureTimes (NewCircuitBreaker m t) history) \<le> t \<longrightarrow>
        Execute cb now r now' new
          = \<lparr>errReturned = Some (errorString new ''circuit breaker is open''), invoked = False,
             during = ''open'', after = cb\<rparr>)
   \<and> (State cb = ''open''
        \<and> now - last (failureTimes (NewCircuitBreaker m t) history) > t \<longrightarrow>
        invoked (Execute cb now r now' new) \<and> during (Execute cb now r now' new) = ''half-open''
        \<and> errReturned (Execute cb now r now' new) = r)
   \<and> (State cb = ''open''
        \<and> now - last (failureTimes (NewCircuitBreaker m t) history) > t \<and> r = None \<longrightarrow>
        State (after (Execute cb now r now' new)) = ''closed''
        \<and> failures (after (Execute cb now r now' new)) = 0)
   \<and> (State cb = ''open''
        \<and> now - last (failureTimes (NewCircuitBreaker m t) history) > t \<and> r \<noteq> None \<longrightarrow>
        State (after (Execute cb now r now' new)) = ''open''
        \<and> lastFailureTime (after (Execute cb now r now' new)) = now'
        \<and> (now2 - now' \<le> t \<longrightarrow>
             \<not> invoked (Execute (after (Execute cb now r now' new)) now2 r2 now2' new2)))
   \<and> (State cb = ''closed'' \<and> r = None \<longrightarrow>
        invoked (Execute cb now r now' new) \<and> State (after (Execute cb now r now' new)) = ''closed''
        \<and> failures (after (Execute cb now r now' new)) = 0)
   \<and> (State cb = ''closed'' \<and> r \<noteq> None \<longrightarrow>
        invoked (Execute cb now r now' new)
        \<and> failures (after (Execute cb now r now' new)) = failures cb + 1
        \<and> (State (after (Execute cb now r now' new)) = ''open''
             \<longleftrightarrow> maxFailures cb \<le> failures cb + 1)
        \<and> (State (after (Execute cb now r now' new)) = ''closed''
             \<longleftrightarrow> failures cb + 1 < maxFailures cb))"
    (is "?c1 \<and> ?c2 \<and> ?c3 \<and> ?rec \<and> ?last \<and> ?c4 \<and> ?c5 \<and> ?c6 \<and> ?c7 \<and> ?c8 \<and> ?c9
         \<and> ?c10")
proof -
  let ?new = "NewCircuitBreaker m t"
  have inv: "cb_inv cb"
    using assms cb_inv_ExecuteAll[OF cb_inv_New] by simp
  have t: "resetTimeout cb = t" and m: "maxFailures cb = m"
    using assms params_ExecuteAll[of ?new history] by (simp_all add: NewCircuitBreaker_def)
  have closed: "state ?new = ''closed''" by (simp add: NewCircuitBreaker_def)
  have c1: ?c1 by (simp add: State_def NewCircuitBreaker_def)
  have c2: ?c2 using inv by (auto simp: cb_inv_def State_def)
  have c3: ?c3 using inv
    by (auto simp: cb_inv_def Execute_def admit_def split: if_splits)
  have rec: ?rec
    by (auto simp: Execute_def admit_def settle_def Let_def split: if_splits)
  have last: ?last
    using lastFailureTime_is_last[OF closed, of history] assms by (auto simp: State_def)
  have c4: ?c4
  proof
    assume h: "State cb = ''closed'' \<and> failures cb = 0 \<and> fs \<noteq> []
        \<and> int (length fs) = maxFailures cb \<and> (\<forall>c \<in> set fs. fst (snd c) \<noteq> None)"
    then have r: "state (ExecuteAll cb fs) = ''open''"
      "lastFailureTime (ExecuteAll cb fs) = failedAt (last fs)"
      using failures_reach[of cb fs] by (simp_all add: State_def)
    have b: "\<forall>k<length fs. State (ExecuteAll cb (take k fs)) = ''closed''"
      using h failures_before[of cb fs] by (simp add: State_def)
    have to: "resetTimeout (ExecuteAll cb fs) = t"
      using params_ExecuteAll[of cb fs] t by simp
    have rej: "now2 - failedAt (last fs) \<le> t \<longrightarrow>
             Execute (ExecuteAll cb fs) now2 r2 now2' new2
               = \<lparr>errReturned = Some (errorString new2 ''circuit breaker is open''),
                  invoked = False, during = ''open'', after = ExecuteAll cb fs\<rparr>"
      using r to by (simp add: Execute_def admit_def)
    from r b rej show "State (ExecuteAll cb fs) = ''open''
        \<and> (\<forall>k<length fs. State (ExecuteAll cb (take k fs)) = ''closed'')
        \<and> lastFailureTime (ExecuteAll cb fs) = failedAt (last fs)
        \<and> (now2 - failedAt (last fs) \<le> t \<longrightarrow>
             Execute (ExecuteAll cb fs) now2 r2 now2' new2
               = \<lparr>errReturned = Some (errorString new2 ''circuit breaker is open''),
                  invoked = False, during = ''open'', after = ExecuteAll cb fs\<rparr>)"
      by (simp add: State_def)
  qed
  have c5: ?c5 using last t by (simp add: State_def Execute_def admit_def)
  have c6: ?c6 using last t by (simp add: State_def Execute_def admit_def)
  have c7: ?c7 using last t by (simp add: State_def Execute_def admit_def settle_def)
  have c8: ?c8
  proof (cases r)
    case None
    then show ?thesis by simp
  next
    case (Some e)
    then show ?thesis using inv last t
      by (auto simp: cb_inv_def State_def Execute_def admit_def settle_def Let_def)
  qed
  have c9: ?c9 by (simp add: State_def Execute_def admit_def settle_def)
  have c10: ?c10
    by (auto simp: State_def Execute_def admit_def settle_def Let_def split: if_splits)
  from c1 c2 c3 rec last c4 c5 c6 c7 c8 c9 c10 show ?thesis by (intro conjI)
qed

text \<open>
  A breaker with \<open>maxFailures = 2\<close> and a reset timeout of 5 s, after two failures, the
  last one at the instant 21: a call 5 s after that instant is rejected, a call later
  than that is the trial call.
\<close>

lemma opened: "ExecuteAll (NewCircuitBreaker 2 (5 * Second)) twoFailures =
   \<lparr>maxFailures = 2, resetTimeout = 5 * Second, failures = 2, lastFailureTime = 21, state = ''open''\<rparr>"
  by (simp add: twoFailures_def NewCircuitBreaker_def Execute_def admit_def settle_def Let_def)

lemma twoFailures_times:
  "failureTimes (NewCircuitBreaker 2 (5 * Second)) twoFailures = [11, 21]"
  by (simp add: twoFailures_def NewCircuitBreaker_def Execute_def admit_def settle_def Let_def)

theorem CircuitBreaker_state_machine_witness:
  "State (ExecuteAll (NewCircuitBreaker 2 (5 * Second)) twoFailures) = ''open''
   \<and> State (ExecuteAll (NewCircuitBreaker 2 (5 * Second)) (take 1 twoFailures)) = ''closed''
   \<and> lastFailureTime (ExecuteAll (NewCircuitBreaker 2 (5 * Second)) twoFailures) = 21
   \<and> last (failureTimes (NewCircuitBreaker 2 (5 * Second)) twoFailures) = 21
   \<and> Execute (ExecuteAll (NewCircuitBreaker 2 (5 * Second)) twoFailures)
        (21 + 5 * Second) None (22 + 5 * Second) 4
       = \<lparr>errReturned = Some (errorString 4 ''circuit breaker is open''), invoked = False,
          during = ''open'',
          after = ExecuteAll (NewCircuitBreaker 2 (5 * Second)) twoFailures\<rparr>
   \<and> Execute (ExecuteAll (NewCircuitBreaker 2 (5 * Second)) twoFailures)
        (22 + 5 * Second) None (23 + 5 * Second) 4
       = \<lparr>errReturned = None, invoked = True, during = ''half-open'',
          after = \<lparr>maxFailures = 2, resetTimeout = 5 * Second, failures = 0,
                   lastFailureTime = 21, state = ''closed''\<rparr>\<rparr>
   \<and> Execute (ExecuteAll (NewCircuitBreaker 2 (5 * Second)) twoFailures)
        (22 + 5 * Second) (Some refused) (23 + 5 * Second) 4
       = \<lparr>errReturned = Some refused, invoked = True, during = ''half-open'',
          after = \<lparr>maxFailures = 2, resetTimeout = 5 * Second, failures = 3,
                   lastFailureTime = 23 + 5 * Second, state = ''open''\<rparr>\<rparr>"
proof -
  let ?new = "NewCircuitBreaker 2 (5 * Second)"
  let ?cb = "ExecuteAll ?new twoFailures"
  have e0: "?new = ExecuteAll (NewCircuitBreaker 2 (5 * Second)) []" by simp
  have ante: "State ?new = ''closed'' \<and> failures ?new = 0 \<and> twoFailures \<noteq> []
      \<and> int (length twoFailures) = maxFailures ?new
      \<and> (\<forall>c \<in> set twoFailures. fst (snd c) \<noteq> None)"
    by (simp add: State_def NewCircuitBreaker_def twoFailures_def)
  have at21: "failedAt (last twoFailures) = 21" and l: "1 < length twoFailures"
    by (simp_all add: twoFailures_def failedAt_def)
  note reach = CircuitBreaker_state_machine[where cb="?new" and m=2 and t="5 * Second"
      and history="[]" and fs=twoFailures and ?now2.0="21 + 5 * Second" and ?r2.0=None
      and ?now2'="22 + 5 * Second" and ?new2.0=4 and now=0 and r=None and now'=0
      and new=0, OF e0, THEN conjunct2, THEN conjunct2, THEN conjunct2, THEN conjunct2,
      THEN conjunct2, THEN conjunct1, THEN mp, OF ante]
  have a: "State ?cb = ''open''
      \<and> State (ExecuteAll ?new (take 1 twoFailures)) = ''closed''
      \<and> lastFailureTime ?cb = 21
      \<and> Execute ?cb (21 + 5 * Second) None (22 + 5 * Second) 4
          = \<lparr>errReturned = Some (errorString 4 ''circuit breaker is open''), invoked = False,
             during = ''open'', after = ?cb\<rparr>"
    using reach l by (simp add: at21)
  have b: "last (failureTimes ?new twoFailures) = 21" by (simp add: twoFailures_times)
  have o: "State ?cb = ''open''" using a by simp
  have c: "Execute ?cb (22 + 5 * Second) None (23 + 5 * Second) 4
       = \<lparr>errReturned = None, invoked = True, during = ''half-open'',
          after = \<lparr>maxFailures = 2, resetTimeout = 5 * Second, failures = 0,
                   lastFailureTime = 21, state = ''closed''\<rparr>\<rparr>"
    by (simp add: opened Execute_def admit_def settle_def Let_def)
  have d: "Execute ?cb (22 + 5 * Second) (Some refused) (23 + 5 * Second) 4
       = \<lparr>errReturned = Some refused, invoked = True, during = ''half-open'',
          after = \<lparr>maxFailures = 2, resetTimeout = 5 * Second, failures = 3,
                   lastFailureTime = 23 + 5 * Second, state = ''open''\<rparr>\<rparr>"
    by (simp add: opened Execute_def admit_def settle_def Let_def)
  from a b c d show ?thesis by simp
qed
section \<open>Properties of the rate limiter\<close>





text \<open>
  Without that, the invariant fails before any call: a rate of \<open>10^19\<close> with no burst
  gives the smallest \<open>int64\<close> as burst, and as many tokens.
\<close>

lemma NewRateLimiter_overflow:
  "NewRateLimiter 10000000000000000000 0 now
     = \<lparr>rate = 10000000000000000000, burst = MinInt64, tokens = real_of_int MinInt64,
        lastUpdate = now\<rparr>"
  "tokens (NewRateLimiter 10000000000000000000 0 now) < 0"
  by (simp_all add: NewRateLimiter_def Let_def int_of_float_def trunc_def MinInt64_def
        MaxInt64_def)











section \<open>Properties of the DNS resolver\<close>

declare resolveLoop.simps [simp del]











text \<open>The product \<open>Workers * 2\<close> of a large number of workers is negative in 64 bits.\<close>

lemma Resolve_many_workers:
  "Resolve maxchan (config\<lparr>Workers := 2 ^ 62\<rparr>) net arrived = Inl MakechanSizeOutOfRange"
  by (simp add: Resolve_def makechan_def wrap64_def MinInt64_def)



section \<open>Properties of the title extraction\<close>

declare TrimLeft.simps [simp del] TrimRight.simps [simp del]

lemma matchFold_append:
  "foldEq t lit \<Longrightarrow> matchFold lit (t @ r) = Some r"
  unfolding foldEq_def
  by (induction t lit rule: list_all2_induct) auto

lemma matchFold_SomeD:
  "matchFold lit s = Some r \<Longrightarrow> \<exists>t. s = t @ r \<and> foldEq t lit"
proof (induction lit s rule: matchFold.induct)
  case (1 s)
  then show ?case by (simp add: foldEq_def)
next
  case (2 p ps)
  then show ?case by simp
next
  case (3 p ps c cs)
  then have m: "c = p \<or> c = otherCase p" and r: "matchFold ps cs = Some r"
    by (auto split: if_splits)
  from "3.IH"[OF m r] obtain t where "cs = t @ r" "foldEq t ps" by blast
  then have "c # cs = (c # t) @ r \<and> foldEq (c # t) (p # ps)"
    using m by (simp add: foldEq_def)
  then show ?case by blast
qed

lemma foldEq_closing_hd: "foldEq closing ''</title>'' \<Longrightarrow> \<exists>cs. closing = CHR ''<'' # cs"
  by (auto simp: foldEq_def list_all2_Cons2 otherCase_def)

lemma matchTitleAt_complete:
  assumes "title_match s g"
  shows "matchTitleAt s = Some g"
proof -
  from assms obtain tag attrs closing rest where
    s: "s = tag @ attrs @ [CHR ''>''] @ g @ closing @ rest"
    and tag: "foldEq tag ''<title''" and attrs: "CHR ''>'' \<notin> set attrs"
    and g: "g \<noteq> []" "CHR ''<'' \<notin> set g" and closing: "foldEq closing ''</title>''"
    unfolding title_match_def by blast
  from closing obtain cs where cs: "closing = CHR ''<'' # cs"
    using foldEq_closing_hd by blast
  have 1: "matchFold ''<title'' s = Some (attrs @ [CHR ''>''] @ g @ closing @ rest)"
    unfolding s by (rule matchFold_append[OF tag])
  have 2: "dropWhile (\<lambda>c. c \<noteq> CHR ''>'') (attrs @ [CHR ''>''] @ g @ closing @ rest)
             = CHR ''>'' # g @ closing @ rest"
    using attrs by (auto simp: dropWhile_append3)
  have 3: "takeWhile (\<lambda>c. c \<noteq> CHR ''<'') (g @ closing @ rest) = g"
    using g(2) cs by (auto simp: takeWhile_tail)
  have 4: "dropWhile (\<lambda>c. c \<noteq> CHR ''<'') (g @ closing @ rest) = closing @ rest"
    using g(2) cs by (auto simp: dropWhile_append3)
  have 5: "matchFold ''</title>'' (closing @ rest) = Some rest"
    by (rule matchFold_append[OF closing])
  show ?thesis
    unfolding matchTitleAt_def 1 by (simp only: 2 3 4 5 Let_def option.case list.case g(1) if_False)
qed

lemma matchTitleAt_sound:
  assumes "matchTitleAt s = Some g"
  shows "title_match s g"
proof -
  from assms obtain r1 where r1: "matchFold ''<title'' s = Some r1"
    by (auto simp: matchTitleAt_def split: option.splits)
  from assms r1 obtain gt r2 where r2: "dropWhile (\<lambda>c. c \<noteq> CHR ''>'') r1 = gt # r2"
    by (auto simp: matchTitleAt_def split: list.splits)
  let ?g = "takeWhile (\<lambda>c. c \<noteq> CHR ''<'') r2"
  let ?r3 = "dropWhile (\<lambda>c. c \<noteq> CHR ''<'') r2"
  from assms r1 r2 have g: "?g \<noteq> []" "g = ?g"
    by (auto simp: matchTitleAt_def Let_def split: if_splits option.splits)
  from assms r1 r2 obtain r4 where r4: "matchFold ''</title>'' ?r3 = Some r4"
    by (auto simp: matchTitleAt_def Let_def split: if_splits option.splits)
  from matchFold_SomeD[OF r1] obtain tag where tag: "s = tag @ r1" "foldEq tag ''<title''"
    by blast
  from matchFold_SomeD[OF r4] obtain closing where
    closing: "?r3 = closing @ r4" "foldEq closing ''</title>''" by blast
  have gt: "gt = CHR ''>''"
    using r2 hd_dropWhile[of "\<lambda>c. c \<noteq> CHR ''>''" r1] by simp
  have a: "r1 = takeWhile (\<lambda>c. c \<noteq> CHR ''>'') r1 @ [CHR ''>''] @ r2"
    using takeWhile_dropWhile_id[of "\<lambda>c. c \<noteq> CHR ''>''" r1] r2 gt by simp
  have b: "r2 = ?g @ closing @ r4"
    using takeWhile_dropWhile_id[of "\<lambda>c. c \<noteq> CHR ''<''" r2] closing(1) by simp
  have na: "CHR ''>'' \<notin> set (takeWhile (\<lambda>c. c \<noteq> CHR ''>'') r1)"
    by (auto dest: set_takeWhileD)
  have ng: "CHR ''<'' \<notin> set ?g"
    by (auto dest: set_takeWhileD)
  have "s = tag @ takeWhile (\<lambda>c. c \<noteq> CHR ''>'') r1 @ [CHR ''>''] @ ?g @ closing @ r4"
    using tag(1) a b by simp
  with tag(2) na g(1) ng closing(2) show ?thesis
    unfolding title_match_def g(2) by blast
qed

lemma matchTitleAt_iff: "matchTitleAt s = Some g \<longleftrightarrow> title_match s g"
  using matchTitleAt_sound matchTitleAt_complete by blast

lemma title_match_unique: "title_match s g \<Longrightarrow> title_match s g' \<Longrightarrow> g = g'"
  using matchTitleAt_complete[of s g] matchTitleAt_complete[of s g'] by simp

lemma FindStringSubmatch_sound:
  "FindStringSubmatch body = Some g \<Longrightarrow> first_title_match body g"
proof (induction body)
  case Nil
  then have "title_match [] g" by (simp add: matchTitleAt_iff)
  then show ?case unfolding first_title_match_def by force
next
  case (Cons c cs)
  show ?case
  proof (cases "matchTitleAt (c # cs)")
    case (Some g')
    with Cons.prems have "title_match (c # cs) g" by (simp add: matchTitleAt_iff)
    then have "c # cs = [] @ (c # cs) \<and> title_match (c # cs) g
        \<and> (\<forall>before' s' g'. c # cs = before' @ s' \<and> length before' < length ([]::string)
              \<longrightarrow> \<not> title_match s' g')" by simp
    then show ?thesis unfolding first_title_match_def by blast
  next
    case None
    with Cons.prems have "FindStringSubmatch cs = Some g" by simp
    from Cons.IH[OF this] obtain before s where
      b: "cs = before @ s" "title_match s g"
      "\<forall>before' s' g'. cs = before' @ s' \<and> length before' < length before
          \<longrightarrow> \<not> title_match s' g'"
      unfolding first_title_match_def by blast
    have "\<forall>before' s' g'. c # cs = before' @ s' \<and> length before' < length (c # before)
            \<longrightarrow> \<not> title_match s' g'"
    proof (intro allI impI)
      fix before' s' g'
      assume h: "c # cs = before' @ s' \<and> length before' < length (c # before)"
      show "\<not> title_match s' g'"
      proof (cases before')
        case Nil
        with h have "s' = c # cs" by simp
        with None show ?thesis by (simp add: matchTitleAt_iff[symmetric])
      next
        case (Cons x xs)
        with h have "cs = xs @ s'" "length xs < length before" by simp_all
        with b(3) show ?thesis by blast
      qed
    qed
    with b(1,2) have "c # cs = (c # before) @ s \<and> title_match s g
        \<and> (\<forall>before' s' g'. c # cs = before' @ s' \<and> length before' < length (c # before)
              \<longrightarrow> \<not> title_match s' g')" by simp
    then show ?thesis unfolding first_title_match_def by blast
  qed
qed

lemma FindStringSubmatch_complete:
  assumes "first_title_match body g"
  shows "FindStringSubmatch body = Some g"
proof -
  from assms obtain before s where
    b: "body = before @ s" "title_match s g"
    "\<forall>before' s' g'. body = before' @ s' \<and> length before' < length before
        \<longrightarrow> \<not> title_match s' g'"
    unfolding first_title_match_def by blast
  then show ?thesis
  proof (induction before arbitrary: body)
    case Nil
    then have "matchTitleAt body = Some g" by (simp add: matchTitleAt_iff)
    then show ?case by (cases body) simp_all
  next
    case (Cons c cs)
    have "\<not> title_match body g'" for g'
      using Cons.prems(3)[rule_format, of "[]" body g'] by simp
    then have none: "matchTitleAt (c # cs @ s) = None"
      using Cons.prems(1) matchTitleAt_iff by (metis append_Cons not_None_eq)
    have "\<forall>before' s' g'. cs @ s = before' @ s' \<and> length before' < length cs
            \<longrightarrow> \<not> title_match s' g'"
    proof (intro allI impI)
      fix before' s' g'
      assume "cs @ s = before' @ s' \<and> length before' < length cs"
      then have "body = (c # before') @ s' \<and> length (c # before') < length (c # cs)"
        using Cons.prems(1) by simp
      with Cons.prems(3) show "\<not> title_match s' g'" by blast
    qed
    from Cons.IH[OF refl Cons.prems(2) this] none Cons.prems(1) show ?case by simp
  qed
qed

lemma FindStringSubmatch_iff:
  "FindStringSubmatch body = Some g \<longleftrightarrow> first_title_match body g"
  using FindStringSubmatch_sound FindStringSubmatch_complete by blast

lemma FindStringSubmatch_None_iff:
  "FindStringSubmatch body = None \<longleftrightarrow> (\<forall>g. \<not> first_title_match body g)"
  by (metis FindStringSubmatch_iff not_None_eq option.distinct(1))


lemma spaces_Nil: "spaces []"
  unfolding spaces_def by (rule exI[of _ "[]"]) simp

lemma spaces_append: "spaces a \<Longrightarrow> spaces b \<Longrightarrow> spaces (a @ b)"
proof -
  assume "spaces a" "spaces b"
  then obtain ps qs where "set ps \<subseteq> set spaceRunes" "a = concat ps"
    "set qs \<subseteq> set spaceRunes" "b = concat qs"
    unfolding spaces_def by blast
  then have "set (ps @ qs) \<subseteq> set spaceRunes \<and> a @ b = concat (ps @ qs)" by simp
  then show "spaces (a @ b)" unfolding spaces_def by blast
qed

lemma spaces_rune: "p \<in> set spaceRunes \<Longrightarrow> spaces p"
  unfolding spaces_def by (rule exI[of _ "[p]"]) simp

lemma TrimLeft_spec:
  "(\<exists>l. s = l @ TrimLeft s \<and> spaces l) \<and> leadingSpace (TrimLeft s) = None"
proof (induction s rule: TrimLeft.induct)
  case (1 s)
  show ?case
  proof (cases "leadingSpace s")
    case None
    then have "TrimLeft s = s" by (subst TrimLeft.simps) simp
    with None spaces_Nil show ?thesis by auto
  next
    case (Some p)
    then have t: "TrimLeft s = TrimLeft (drop (length p) s)"
      by (subst TrimLeft.simps) simp
    from leadingSpace_SomeD[OF Some] have p: "p \<in> set spaceRunes" "prefix p s" by simp_all
    then have s: "s = p @ drop (length p) s" by (auto simp: prefix_def)
    from "1.IH"[OF Some] obtain l where
      l: "drop (length p) s = l @ TrimLeft (drop (length p) s)" "spaces l"
      and n: "leadingSpace (TrimLeft (drop (length p) s)) = None" by blast
    have "s = (p @ l) @ TrimLeft s" using s l(1) t by (metis append.assoc)
    moreover have "spaces (p @ l)" using spaces_append[OF spaces_rune[OF p(1)] l(2)] .
    ultimately show ?thesis using n t by metis
  qed
qed

lemma TrimRight_spec:
  "(\<exists>r. s = TrimRight s @ r \<and> spaces r) \<and> trailingSpace (TrimRight s) = None"
proof (induction s rule: TrimRight.induct)
  case (1 s)
  show ?case
  proof (cases "trailingSpace s")
    case None
    then have "TrimRight s = s" by (subst TrimRight.simps) simp
    with None spaces_Nil show ?thesis by auto
  next
    case (Some p)
    then have t: "TrimRight s = TrimRight (take (length s - length p) s)"
      by (subst TrimRight.simps) simp
    from trailingSpace_SomeD[OF Some] have p: "p \<in> set spaceRunes" "suffix p s" by simp_all
    then have s: "s = take (length s - length p) s @ p" by (auto simp: suffix_def)
    from "1.IH"[OF Some] obtain r where
      r: "take (length s - length p) s = TrimRight (take (length s - length p) s) @ r" "spaces r"
      and n: "trailingSpace (TrimRight (take (length s - length p) s)) = None" by blast
    have "s = TrimRight s @ (r @ p)" using s r(1) t by (metis append.assoc)
    moreover have "spaces (r @ p)" using spaces_append[OF r(2) spaces_rune[OF p(1)]] .
    ultimately show ?thesis using n t by metis
  qed
qed

lemma TrimSpace_spec:
  "(\<exists>l r. s = l @ TrimSpace s @ r \<and> spaces l \<and> spaces r)
   \<and> (\<forall>p \<in> set spaceRunes. \<not> prefix p (TrimSpace s) \<and> \<not> suffix p (TrimSpace s))"
proof -
  from TrimLeft_spec[of s] obtain l where
    l: "s = l @ TrimLeft s" "spaces l" and nl: "leadingSpace (TrimLeft s) = None" by blast
  from TrimRight_spec[of "TrimLeft s"] obtain r where
    r: "TrimLeft s = TrimSpace s @ r" "spaces r" and nr: "trailingSpace (TrimSpace s) = None"
    unfolding TrimSpace_def by blast
  have 1: "\<exists>l r. s = l @ TrimSpace s @ r \<and> spaces l \<and> spaces r"
    using l r by metis
  have 2: "\<not> prefix p (TrimSpace s) \<and> \<not> suffix p (TrimSpace s)" if "p \<in> set spaceRunes" for p
  proof
    have "\<not> prefix p (TrimLeft s)"
      using nl that by (auto simp: leadingSpace_def find_None_iff)
    then show "\<not> prefix p (TrimSpace s)"
      using r(1) by (metis prefix_prefix)
    show "\<not> suffix p (TrimSpace s)"
      using nr that by (auto simp: trailingSpace_def find_None_iff)
  qed
  from 1 2 show ?thesis by blast
qed

text \<open>
  C5, as amended. For every HTML body, the title that the HTTP prober extracts comes from
  the first, that is leftmost, match of \<open><title ...>content</title>\<close>, the tag names
  matched without regard to case and the content non-empty and free of \<open><\<close>: it is the
  content with the white space trimmed from both ends, returned whole when that has at
  most 100 bytes, and otherwise its first 100 bytes followed by the three bytes
  \<open>...\<close>, so that the title has at most 103 bytes. A body with no match has the empty
  title. Trimming removes a run of white-space characters from each end and leaves a
  text that neither starts nor ends with one.
\<close>

theorem extractTitle_spec:
  "(first_title_match body g \<longrightarrow>
      extractTitle body
        = (if length (TrimSpace g) > 100 then take 100 (TrimSpace g) @ ''...''
           else TrimSpace g))
   \<and> ((\<forall>g'. \<not> first_title_match body g') \<longrightarrow> extractTitle body = '''')
   \<and> length (extractTitle body) \<le> 103
   \<and> (\<exists>l r. g = l @ TrimSpace g @ r \<and> spaces l \<and> spaces r)
   \<and> (\<forall>p \<in> set spaceRunes. \<not> prefix p (TrimSpace g) \<and> \<not> suffix p (TrimSpace g))"
    (is "?found \<and> ?none \<and> ?len \<and> ?trim1 \<and> ?trim2")
proof -
  have found: ?found
    by (simp add: extractTitle_def FindStringSubmatch_iff[symmetric] Let_def)
  have none: ?none
    by (simp add: extractTitle_def FindStringSubmatch_None_iff[symmetric])
  have len: ?len
    by (simp add: extractTitle_def Let_def split: option.splits)
  from found none len TrimSpace_spec[of g] show ?thesis by (intro conjI) blast+
qed

text \<open>
  A page whose title element has an attribute, mixed case and padding, and a page whose
  title content holds markup and so matches nowhere.
\<close>

theorem extractTitle_spec_witness:
  "first_title_match examplePage '' Home  ''
   \<and> extractTitle examplePage = ''Home''
   \<and> (\<forall>g'. \<not> first_title_match ''<title>a<b>c</title>'' g')
   \<and> extractTitle ''<title>a<b>c</title>'' = ''''
   \<and> \<not> prefix '' '' (TrimSpace '' Home  '') \<and> \<not> suffix '' '' (TrimSpace '' Home  '')"
proof -
  have m: "first_title_match examplePage '' Home  ''"
    unfolding FindStringSubmatch_iff[symmetric] by code_simp
  have n: "\<forall>g'. \<not> first_title_match ''<title>a<b>c</title>'' g'"
    unfolding FindStringSubmatch_None_iff[symmetric] by code_simp
  have t: "TrimSpace '' Home  '' = ''Home''" by code_simp
  have s: "'' '' \<in> set spaceRunes" by code_simp
  from extractTitle_spec[of examplePage "'' Home  ''"]
    extractTitle_spec[of "''<title>a<b>c</title>''" "'' Home  ''"] m n t s
  show ?thesis by simp
qed

text \<open>
  The claim as first stated, a title truncated to 100 characters, fails for a title of
  101 letters: the result is 100 of them and three dots, 103 bytes.
\<close>

theorem extractTitle_spec_counterexample:
  "FindStringSubmatch longTitlePage = Some (replicate 101 (CHR ''a''))
   \<and> length (extractTitle longTitlePage) = 103
   \<and> \<not> length (extractTitle longTitlePage) \<le> 100"
  by code_simp

section \<open>Properties of the HTTP prober\<close>

declare probeLoop.simps [simp del]

lemma probe_StatusCode:
  "StatusCode (probe detect f url) = (if answers f then StatusCode (probe detect f url) else 0)"
  "StatusCode (probe detect f url) > 0 \<longleftrightarrow> answers f"
  "URL (probe detect f url) = url"
  by (auto simp: probe_def answers_def zeroProbeResult_def Let_def split: Exchange.splits)

lemma probe_not_answers: "\<not> answers f \<Longrightarrow> StatusCode (probe detect f url) = 0"
  using probe_StatusCode(1)[of detect f url] by simp

lemma probeLoop_spec:
  assumes "StatusCode lastResult = 0"
  shows "(StatusCode (fst (probeLoop config detect web url attempt lastResult reqs)) > 0
            \<longleftrightarrow> (\<exists>k. attempt \<le> k \<and> int k \<le> Retries' config \<and> answers (web url k)))
       \<and> (StatusCode (fst (probeLoop config detect web url attempt lastResult reqs)) > 0
            \<longrightarrow> URL (fst (probeLoop config detect web url attempt lastResult reqs)) = url
              \<and> (\<exists>n>0. snd (probeLoop config detect web url attempt lastResult reqs)
                         = reqs @ replicate n url))
       \<and> (\<not> StatusCode (fst (probeLoop config detect web url attempt lastResult reqs)) > 0
            \<longrightarrow> StatusCode (fst (probeLoop config detect web url attempt lastResult reqs)) = 0
              \<and> snd (probeLoop config detect web url attempt lastResult reqs)
                   = reqs @ replicate (nat (Retries' config + 1) - attempt) url)"
  using assms
proof (induction config detect web url attempt lastResult reqs rule: probeLoop.induct)
  case (1 config detect web url attempt lastResult reqs)
  show ?case
  proof (cases "int attempt \<le> Retries' config")
    case False
    then have "probeLoop config detect web url attempt lastResult reqs = (lastResult, reqs)"
      by (subst probeLoop.simps) simp
    with False "1.prems" show ?thesis by auto
  next
    case True
    let ?r = "probe detect (web url attempt) url"
    show ?thesis
    proof (cases "answers (web url attempt)")
      case a: True
      then have "probeLoop config detect web url attempt lastResult reqs = (?r, reqs @ [url])"
        using True by (subst probeLoop.simps) (simp add: probe_StatusCode(2))
      moreover have "reqs @ [url] = reqs @ replicate 1 url" by simp
      ultimately show ?thesis using a True probe_StatusCode(2,3)[of detect "web url attempt" url]
        by (metis fst_conv le_refl snd_conv zero_less_one)
    next
      case na: False
      then have z: "StatusCode ?r = 0" by (rule probe_not_answers)
      have step: "probeLoop config detect web url attempt lastResult reqs
                = probeLoop config detect web url (attempt + 1) ?r (reqs @ [url])"
        using True z by (subst probeLoop.simps) simp
      have ex: "(\<exists>k. attempt \<le> k \<and> int k \<le> Retries' config \<and> answers (web url k))
              \<longleftrightarrow> (\<exists>k. attempt + 1 \<le> k \<and> int k \<le> Retries' config \<and> answers (web url k))"
        using na by (metis Suc_eq_plus1 Suc_leI le_neq_implies_less Suc_leD)
      have rep: "(reqs @ [url]) @ replicate n url = reqs @ replicate (Suc n) url" for n
        by (simp add: replicate_append_same)
      have cnt: "Suc (nat (Retries' config + 1) - (attempt + 1)) = nat (Retries' config + 1) - attempt"
        using True by linarith
      have IH: "(StatusCode (fst (probeLoop config detect web url (attempt + 1) ?r (reqs @ [url]))) > 0
            \<longleftrightarrow> (\<exists>k. attempt + 1 \<le> k \<and> int k \<le> Retries' config \<and> answers (web url k)))
       \<and> (StatusCode (fst (probeLoop config detect web url (attempt + 1) ?r (reqs @ [url]))) > 0
            \<longrightarrow> URL (fst (probeLoop config detect web url (attempt + 1) ?r (reqs @ [url]))) = url
              \<and> (\<exists>n>0. snd (probeLoop config detect web url (attempt + 1) ?r (reqs @ [url]))
                         = (reqs @ [url]) @ replicate n url))
       \<and> (\<not> StatusCode (fst (probeLoop config detect web url (attempt + 1) ?r (reqs @ [url]))) > 0
            \<longrightarrow> StatusCode (fst (probeLoop config detect web url (attempt + 1) ?r (reqs @ [url]))) = 0
              \<and> snd (probeLoop config detect web url (attempt + 1) ?r (reqs @ [url]))
                   = (reqs @ [url]) @ replicate (nat (Retries' config + 1) - (attempt + 1)) url)"
        using "1.IH"[OF True refl _ z] z by simp
      show ?thesis
        unfolding step ex
        using IH unfolding rep cnt by (metis zero_less_Suc)
    qed
  qed
qed


lemma probeWithRetry_responds:
  "StatusCode (fst (probeWithRetry config detect web url)) > 0 \<longleftrightarrow> responds config web url"
  using probeLoop_spec[of zeroProbeResult config detect web url 0 "[]"]
  by (simp add: probeWithRetry_def responds_def zeroProbeResult_def)

lemma probeWithRetry_found:
  assumes "responds config web url"
  shows "URL (fst (probeWithRetry config detect web url)) = url"
    and "\<exists>n>0. snd (probeWithRetry config detect web url) = replicate n url"
  using probeLoop_spec[of zeroProbeResult config detect web url 0 "[]"] assms
  by (simp_all add: probeWithRetry_def responds_def zeroProbeResult_def)

lemma probeWithRetry_silent:
  assumes "\<not> responds config web url"
  shows "StatusCode (fst (probeWithRetry config detect web url)) = 0"
    and "snd (probeWithRetry config detect web url) = replicate (nat (Retries' config + 1)) url"
  using probeLoop_spec[of zeroProbeResult config detect web url 0 "[]"] assms
  by (simp_all add: probeWithRetry_def responds_def zeroProbeResult_def)

lemma tryURLs_none:
  assumes "\<forall>u \<in> set urls. \<not> responds config web u"
  shows "fst (tryURLs config detect web urls reqs) = None"
  using assms
proof (induction urls arbitrary: reqs)
  case Nil
  then show ?case by simp
next
  case (Cons u urls)
  then have "\<not> StatusCode (fst (probeWithRetry config detect web u)) > 0"
    by (simp add: probeWithRetry_responds)
  with Cons show ?case by (simp add: case_prod_beta)
qed

lemma tryURLs_sent:
  assumes "fst (tryURLs config detect web urls reqs) = Some r"
  shows "StatusCode r > 0 \<and> (\<exists>u \<in> set urls. responds config web u
           \<and> r = fst (probeWithRetry config detect web u) \<and> URL r = u)"
  using assms
proof (induction urls arbitrary: reqs)
  case Nil
  then show ?case by simp
next
  case (Cons u urls)
  show ?case
  proof (cases "responds config web u")
    case True
    then have "StatusCode (fst (probeWithRetry config detect web u)) > 0"
      by (simp add: probeWithRetry_responds)
    with Cons.prems True probeWithRetry_found(1)[OF True, of detect] show ?thesis
      by (auto simp: case_prod_beta)
  next
    case False
    then have "\<not> StatusCode (fst (probeWithRetry config detect web u)) > 0"
      by (simp add: probeWithRetry_responds)
    with Cons.prems have "fst (tryURLs config detect web urls
        (reqs @ snd (probeWithRetry config detect web u))) = Some r"
      by (simp add: case_prod_beta)
    from Cons.IH[OF this] show ?thesis by auto
  qed
qed

lemma workOn_first:
  assumes "normalizeURL target = u # us" "responds config web u"
  shows "fst (workOn config detect web target) = Some (fst (probeWithRetry config detect web u))"
    and "\<exists>n>0. snd (workOn config detect web target) = replicate n u"
  using assms probeWithRetry_found(2)[OF assms(2), of detect]
  by (auto simp: workOn_def case_prod_beta probeWithRetry_responds)

lemma workOn_second:
  assumes "normalizeURL target = [u, v]" "\<not> responds config web u" "responds config web v"
  shows "fst (workOn config detect web target) = Some (fst (probeWithRetry config detect web v))"
    and "\<exists>n>0. snd (workOn config detect web target)
           = replicate (nat (Retries' config + 1)) u @ replicate n v"
  using assms probeWithRetry_found(2)[OF assms(3), of detect]
    probeWithRetry_silent(2)[OF assms(2), of detect]
  by (auto simp: workOn_def case_prod_beta probeWithRetry_responds)

lemma map_filter_Some:
  "map Some (List.map_filter f xs) = filter (\<lambda>s. s \<noteq> None) (map f xs)"
  by (induction xs) (auto simp: List.map_filter_simps split: option.splits)

lemma Probe_spec:
  assumes "Probe maxchan config detect webs worked = Inr rs"
  shows "map Some rs = filter (\<lambda>s. s \<noteq> None)
           (map (\<lambda>(j, target). fst (workOn config detect (webs j) target)) (enumerate 0 worked))"
    and "\<forall>r \<in> set rs. StatusCode r > 0"
proof -
  let ?f = "\<lambda>(j, target). fst (workOn config detect (webs j) target)"
  let ?sent = "List.map_filter ?f (enumerate 0 worked)"
  have pos: "\<forall>r \<in> set ?sent. StatusCode r > 0"
  proof
    fix r assume "r \<in> set ?sent"
    then obtain j target where "?f (j, target) = Some r"
      by (auto simp: List.map_filter_def)
    then show "StatusCode r > 0"
      using tryURLs_sent[of config detect "webs j" "normalizeURL target" "[]" r]
      by (simp add: workOn_def)
  qed
  then have "filter (\<lambda>result. StatusCode result > 0) ?sent = ?sent"
    by (simp add: filter_id_conv)
  with assms have rs: "rs = ?sent" by (simp add: Probe_def split: if_splits)
  show "map Some rs = filter (\<lambda>s. s \<noteq> None) (map ?f (enumerate 0 worked))"
    unfolding rs by (rule map_filter_Some)
  show "\<forall>r \<in> set rs. StatusCode r > 0" unfolding rs by (rule pos)
qed


text \<open>The product \<open>Workers * 2\<close> of a large number of workers is negative in 64 bits.\<close>

lemma Probe_many_workers:
  "Probe maxchan (config\<lparr>Workers' := 2 ^ 62\<rparr>) detect webs worked
     = Inl MakechanSizeOutOfRange"
  by (simp add: Probe_def makechan_def wrap64_def MinInt64_def)

text \<open>
  C7, as amended. For every probe target the prober first trims the white space around
  it. The candidate URLs are the trimmed target alone when that starts with \<open>http://\<close>
  or \<open>https://\<close>, and otherwise \<open>https://\<close> followed by the trimmed target, then
  \<open>http://\<close> followed by it, in that order. A candidate that yields a response has a
  result of positive status code under its own URL. The worker keeps the first
  candidate that yields a response: when the first candidate responds, its result is
  sent and nothing else is requested; when the first of two does not and the second
  does, all requests to the first precede those to the second, whose result is sent.
  When no candidate responds, every candidate's result has \<open>StatusCode = 0\<close> and nothing
  is sent for the target. The list that \<open>Probe\<close> returns consists of exactly the results
  sent, each of positive status code, so that such a target is absent from it; and
  \<open>Probe\<close> returns a list exactly when the job channel of size \<open>Workers * 2\<close> can be
  made.
\<close>

theorem Probe_candidates:
  "(prefix ''http://'' (TrimSpace target) \<or> prefix ''https://'' (TrimSpace target) \<longrightarrow>
      normalizeURL target = [TrimSpace target])
   \<and> (\<not> prefix ''http://'' (TrimSpace target) \<and> \<not> prefix ''https://'' (TrimSpace target) \<longrightarrow>
      normalizeURL target = [''https://'' @ TrimSpace target, ''http://'' @ TrimSpace target])
   \<and> (responds config web u \<longrightarrow>
      StatusCode (fst (probeWithRetry config detect web u)) > 0
      \<and> URL (fst (probeWithRetry config detect web u)) = u)
   \<and> (normalizeURL target = u # us \<and> responds config web u \<longrightarrow>
      fst (workOn config detect web target) = Some (fst (probeWithRetry config detect web u))
      \<and> (\<exists>n>0. snd (workOn config detect web target) = replicate n u))
   \<and> (normalizeURL target = [u, v] \<and> \<not> responds config web u \<and> responds config web v \<longrightarrow>
      fst (workOn config detect web target) = Some (fst (probeWithRetry config detect web v))
      \<and> (\<exists>n>0. snd (workOn config detect web target)
                  = replicate (nat (Retries' config + 1)) u @ replicate n v))
   \<and> ((\<forall>c \<in> set (normalizeURL target). \<not> responds config web c) \<longrightarrow>
      fst (workOn config detect web target) = None
      \<and> (\<forall>c \<in> set (normalizeURL target).
            StatusCode (fst (probeWithRetry config detect web c)) = 0))
   \<and> (Probe maxchan config detect webs worked = Inr rs \<longrightarrow>
      map Some rs = filter (\<lambda>s. s \<noteq> None)
        (map (\<lambda>(j, target). fst (workOn config detect (webs j) target)) (enumerate 0 worked))
      \<and> (\<forall>r \<in> set rs. StatusCode r > 0))
   \<and> ((\<exists>rs. Probe maxchan config detect webs worked = Inr rs)
        \<longleftrightarrow> 0 \<le> wrap64 (Workers' config * 2) \<and> wrap64 (Workers' config * 2) \<le> maxchan)"
    (is "?n1 \<and> ?n2 \<and> ?p \<and> ?w1 \<and> ?w2 \<and> ?w0 \<and> ?pr \<and> ?tot")
proof -
  have n1: ?n1 by (simp add: normalizeURL_def Let_def)
  have n2: ?n2 by (simp add: normalizeURL_def Let_def)
  have p: ?p using probeWithRetry_found(1)[of config web u detect]
    by (simp add: probeWithRetry_responds)
  have w1: ?w1 using workOn_first[of target u us config web detect] by blast
  have w2: ?w2 using workOn_second[of target u v config web detect] by blast
  have w0: ?w0
    using tryURLs_none[of "normalizeURL target" config web detect "[]"]
      probeWithRetry_silent(1)[of config web _ detect]
    by (simp add: workOn_def)
  have pr: ?pr using Probe_spec[of maxchan config detect webs worked rs] by blast
  have tot: ?tot by (simp add: Probe_def makechan_def)
  from n1 n2 p w1 w2 w0 pr tot show ?thesis by (intro conjI)
qed

text \<open>
  The default configuration: for \<open>example.com\<close> only the plain \<open>http\<close> candidate
  answers; for \<open>gone.example.com\<close> nothing does.
\<close>

lemma example_candidates:
  "normalizeURL ''example.com'' = [''https://example.com'', ''http://example.com'']"
  "normalizeURL ''gone.example.com'' = [''https://gone.example.com'', ''http://gone.example.com'']"
  by code_simp+

lemma example_Retries: "Retries' exampleProbeConfig = 2" "Workers' exampleProbeConfig = 100"
  "Targets exampleProbeConfig = [''example.com'', ''gone.example.com'']"
  by (simp_all add: exampleProbeConfig_def NewProber_def Let_def)

lemma example_body: "take 102400 examplePage = examplePage"
  by (simp add: examplePage_def)

lemma example_title: "extractTitle examplePage = ''Home''"
  by code_simp

lemma example_probe:
  "probe noTechnologies (plainOnlyWeb ''http://example.com'' k) ''http://example.com''
     = exampleProbeResult"
  by (simp add: probe_def plainOnlyWeb_def exampleResponse_def exampleProbeResult_def
        zeroProbeResult_def noTechnologies_def headerGet_def Let_def example_body example_title)

lemma example_responds:
  "responds exampleProbeConfig plainOnlyWeb ''http://example.com''"
  "\<not> responds exampleProbeConfig plainOnlyWeb ''https://example.com''"
  "\<not> responds exampleProbeConfig deadWeb c"
proof -
  have "int 0 \<le> Retries' exampleProbeConfig \<and> answers (plainOnlyWeb ''http://example.com'' 0)"
    by (simp add: example_Retries answers_def plainOnlyWeb_def exampleResponse_def)
  then show "responds exampleProbeConfig plainOnlyWeb ''http://example.com''"
    unfolding responds_def by blast
  show "\<not> responds exampleProbeConfig plainOnlyWeb ''https://example.com''"
    by (simp add: responds_def answers_def plainOnlyWeb_def)
  show "\<not> responds exampleProbeConfig deadWeb c"
    by (simp add: responds_def answers_def deadWeb_def)
qed

lemma example_probeWithRetry:
  "fst (probeWithRetry exampleProbeConfig noTechnologies plainOnlyWeb ''http://example.com'')
     = exampleProbeResult"
  by (simp add: probeWithRetry_def probeLoop.simps example_Retries example_probe
        exampleProbeResult_def)

theorem Probe_candidates_witness:
  "normalizeURL ''example.com'' = [''https://example.com'', ''http://example.com'']
   \<and> fst (workOn exampleProbeConfig noTechnologies plainOnlyWeb ''example.com'')
       = Some exampleProbeResult
   \<and> fst (workOn exampleProbeConfig noTechnologies deadWeb ''gone.example.com'') = None
   \<and> Probe 1000 exampleProbeConfig noTechnologies exampleWebs (Targets exampleProbeConfig)
       = Inr [exampleProbeResult]"
proof -
  have a: "fst (workOn exampleProbeConfig noTechnologies plainOnlyWeb ''example.com'')
             = Some exampleProbeResult"
    using Probe_candidates[of "''example.com''" exampleProbeConfig plainOnlyWeb
            "''https://example.com''" noTechnologies "[''http://example.com'']"
            "''http://example.com''"]
      example_candidates(1) example_responds(1,2) example_probeWithRetry
    by simp
  have b: "fst (workOn exampleProbeConfig noTechnologies deadWeb ''gone.example.com'') = None"
    using Probe_candidates[of "''gone.example.com''" exampleProbeConfig deadWeb
            "''https://gone.example.com''" noTechnologies "[''http://gone.example.com'']"
            "''http://gone.example.com''"]
      example_responds(3)
    by simp
  have c: "Probe 1000 exampleProbeConfig noTechnologies exampleWebs (Targets exampleProbeConfig)
             = Inr [exampleProbeResult]"
    using a b
    by (simp add: Probe_def makechan_def wrap64_def MinInt64_def example_Retries
          exampleWebs_def List.map_filter_simps
          exampleProbeResult_def)
  from example_candidates(1) a b c show ?thesis by simp
qed

text \<open>
  The claim as first stated, candidates as given when the target has a scheme, fails
  for a target with a scheme and a trailing space: the candidate is the trimmed text.
\<close>

theorem Probe_candidates_counterexample:
  "prefix ''http://'' ''http://example.com ''
   \<and> normalizeURL ''http://example.com '' = [''http://example.com'']
   \<and> normalizeURL ''http://example.com '' \<noteq> [''http://example.com '']"
  by code_simp

section \<open>Properties of the set of seen URLs\<close>

lemma seen_inv_initial: "seen_inv parse urlOf m (initial m)"
  by (simp add: seen_inv_def initial_def inside_def claims_new_def)

lemma present_upd: "present (m(k \<mapsto> True)) k' \<longleftrightarrow> k' = k \<or> present m k'"
  by (simp add: present_def)

lemma seen_inv_step:
  assumes "seen_inv parse urlOf m s" "step parse urlOf s s'"
  shows "seen_inv parse urlOf m s'"
  using assms(2)
proof cases
  case (lock t)
  from assms(1) lock(2,3) have none: "\<not> inside (place_of s t')" for t'
    by (simp add: seen_inv_def)
  have pl: "place_of s t' \<noteq> Locked" "place_of s t' \<noteq> Inserting k"
    "place_of s t' \<noteq> Returning b" for t' k b
    using none[of t'] by (auto simp: inside_def)
  show ?thesis
    using assms(1) none pl unfolding lock(1) seen_inv_def
    by (auto simp: inside_def claims_new_def)
next
  case (parse_error t)
  from assms(1) parse_error(2) have mu: "seenMu s = Some t"
    by (auto simp: seen_inv_def inside_def)
  have others: "\<not> inside (place_of s t')" if "t' \<noteq> t" for t'
    using assms(1) mu that by (auto simp: seen_inv_def)
  have sn: "seen s = snapshot s" using assms(1) parse_error(2) by (auto simp: seen_inv_def)
  have ms: "markSeen parse (snapshot s) (urlOf t) = (False, seen s)"
    using parse_error(3) sn by (simp add: markSeen_def)
  show ?thesis
    using assms(1) others ms parse_error(2) unfolding parse_error(1) seen_inv_def
    by (auto simp: inside_def claims_new_def)
next
  case (already_seen t parsed)
  from assms(1) already_seen(2) have mu: "seenMu s = Some t"
    by (auto simp: seen_inv_def inside_def)
  have others: "\<not> inside (place_of s t')" if "t' \<noteq> t" for t'
    using assms(1) mu that by (auto simp: seen_inv_def)
  have sn: "seen s = snapshot s" using assms(1) already_seen(2) by (auto simp: seen_inv_def)
  have ms: "markSeen parse (snapshot s) (urlOf t) = (False, seen s)"
    using already_seen(3,4) sn by (simp add: markSeen_def)
  show ?thesis
    using assms(1) others ms already_seen(2) unfolding already_seen(1) seen_inv_def
    by (auto simp: inside_def claims_new_def)
next
  case (is_new t parsed)
  from assms(1) is_new(2) have mu: "seenMu s = Some t"
    by (auto simp: seen_inv_def inside_def)
  have others: "\<not> inside (place_of s t')" if "t' \<noteq> t" for t'
    using assms(1) mu that by (auto simp: seen_inv_def)
  have sn: "seen s = snapshot s" using assms(1) is_new(2) by (auto simp: seen_inv_def)
  have k: "key_of parse (urlOf t) = Some (normalizedKey parsed)"
    using is_new(3) by (simp add: key_of_def)
  show ?thesis
    using assms(1) others sn k is_new(2,4) unfolding is_new(1) seen_inv_def
    by (auto simp: inside_def claims_new_def)
next
  case (insert t k)
  from assms(1) insert(2) have mu: "seenMu s = Some t"
    by (auto simp: seen_inv_def inside_def)
  have others: "\<not> inside (place_of s t')" if "t' \<noteq> t" for t'
    using assms(1) mu that by (auto simp: seen_inv_def)
  have pl: "place_of s t' \<noteq> Locked" "place_of s t' \<noteq> Inserting k'"
    "place_of s t' \<noteq> Returning b'" if "t' \<noteq> t" for t' k' b'
    using others[OF that] by (auto simp: inside_def)
  have c: "seen s = snapshot s" "key_of parse (urlOf t) = Some k" "\<not> present (seen s) k"
    using assms(1) insert(2) unfolding seen_inv_def by blast+
  then obtain parsed where p: "parse (urlOf t) = Some parsed" "normalizedKey parsed = k"
    by (auto simp: key_of_def)
  have ms: "markSeen parse (snapshot s) (urlOf t) = (True, (seen s)(k \<mapsto> True))"
    using p c by (simp add: markSeen_def Let_def)
  have fresh: "\<not> present m k" using assms(1) c(3) by (auto simp: seen_inv_def)
  have noclaim: "\<not> (claims_new (place_of s t') \<and> key_of parse (urlOf t') = Some k)" for t'
    using assms(1) c(3) by (auto simp: seen_inv_def)
  have A: "\<forall>t'. inside (place_of s' t') \<longleftrightarrow> seenMu s' = Some t'"
    using assms(1) others mu insert(2) unfolding insert(1)
    by (auto simp: seen_inv_def inside_def)
  have B: "\<forall>t'. place_of s' t' = Locked \<longrightarrow> seen s' = snapshot s'"
    using pl unfolding insert(1) by auto
  have C: "\<forall>t' k'. place_of s' t' = Inserting k' \<longrightarrow>
          seen s' = snapshot s' \<and> key_of parse (urlOf t') = Some k' \<and> \<not> present (seen s') k'"
    using pl unfolding insert(1) by auto
  have D: "\<forall>t' b. place_of s' t' = Returning b \<longrightarrow>
          markSeen parse (snapshot s') (urlOf t') = (b, seen s')"
    using pl ms unfolding insert(1) by auto
  have E: "\<forall>t'. claims_new (place_of s' t') \<longrightarrow>
          (\<exists>k'. key_of parse (urlOf t') = Some k' \<and> present (seen s') k' \<and> \<not> present m k')"
    using assms(1) c(2) fresh unfolding insert(1)
    by (auto simp: seen_inv_def present_upd)
  have F: "\<forall>t' t''. claims_new (place_of s' t') \<and> claims_new (place_of s' t'')
          \<and> key_of parse (urlOf t') = key_of parse (urlOf t'') \<longrightarrow> t' = t''"
  proof (intro allI impI)
    fix t' t''
    assume h: "claims_new (place_of s' t') \<and> claims_new (place_of s' t'')
          \<and> key_of parse (urlOf t') = key_of parse (urlOf t'')"
    show "t' = t''"
    proof (cases "t' = t \<or> t'' = t")
      case True
      then show ?thesis using h noclaim[of t'] noclaim[of t''] c(2) unfolding insert(1)
        by (auto split: if_splits)
    next
      case False
      then show ?thesis using h assms(1) unfolding insert(1)
        by (auto simp: seen_inv_def)
    qed
  qed
  have G: "\<forall>k'. present m k' \<longrightarrow> present (seen s') k'"
    using assms(1) unfolding insert(1) by (auto simp: seen_inv_def present_upd)
  from A B C D E F G show ?thesis unfolding seen_inv_def by blast
next
  case (unlock t b)
  from assms(1) unlock(2) have mu: "seenMu s = Some t"
    by (auto simp: seen_inv_def inside_def)
  have others: "\<not> inside (place_of s t')" if "t' \<noteq> t" for t'
    using assms(1) mu that by (auto simp: seen_inv_def)
  have pl: "place_of s t' \<noteq> Locked" "place_of s t' \<noteq> Inserting k"
    "place_of s t' \<noteq> Returning b'" if "t' \<noteq> t" for t' k b'
    using others[OF that] by (auto simp: inside_def)
  have cl: "claims_new (place_of s t) \<longleftrightarrow> b" using unlock(2) by (simp add: claims_new_def)
  have A: "\<forall>t'. inside (place_of s' t') \<longleftrightarrow> seenMu s' = Some t'"
    using others unfolding unlock(1) by (auto simp: inside_def)
  have B: "\<forall>t'. place_of s' t' = Locked \<longrightarrow> seen s' = snapshot s'"
    using pl unfolding unlock(1) by auto
  have C: "\<forall>t' k'. place_of s' t' = Inserting k' \<longrightarrow>
          seen s' = snapshot s' \<and> key_of parse (urlOf t') = Some k' \<and> \<not> present (seen s') k'"
    using pl unfolding unlock(1) by auto
  have D: "\<forall>t' b. place_of s' t' = Returning b \<longrightarrow>
          markSeen parse (snapshot s') (urlOf t') = (b, seen s')"
    using pl unfolding unlock(1) by auto
  have E: "\<forall>t'. claims_new (place_of s' t') \<longrightarrow>
          (\<exists>k'. key_of parse (urlOf t') = Some k' \<and> present (seen s') k' \<and> \<not> present m k')"
    using assms(1) cl unlock(2) unfolding unlock(1)
    by (auto simp: seen_inv_def claims_new_def)
  have F: "\<forall>t' t''. claims_new (place_of s' t') \<and> claims_new (place_of s' t'')
          \<and> key_of parse (urlOf t') = key_of parse (urlOf t'') \<longrightarrow> t' = t''"
  proof (intro allI impI)
    fix t' t''
    assume h: "claims_new (place_of s' t') \<and> claims_new (place_of s' t'')
          \<and> key_of parse (urlOf t') = key_of parse (urlOf t'')"
    have "claims_new (place_of s t')" "claims_new (place_of s t'')"
      using h unlock(2) unfolding unlock(1) by (auto simp: claims_new_def split: if_splits)
    with h assms(1) show "t' = t''" unfolding seen_inv_def by blast
  qed
  have G: "\<forall>k'. present m k' \<longrightarrow> present (seen s') k'"
    using assms(1) unfolding unlock(1) by (auto simp: seen_inv_def)
  from A B C D E F G show ?thesis unfolding seen_inv_def by blast
qed

lemma reachable_inv: "reachable parse urlOf m s \<Longrightarrow> seen_inv parse urlOf m s"
  by (induction rule: reachable.induct) (auto intro: seen_inv_initial seen_inv_step)


lemma reachable_complete:
  assumes "reachable parse urlOf m s" "place_of s t = Start" "seenMu s = None"
  shows "reachable parse urlOf m (complete parse urlOf t s)"
proof -
  let ?s1 = "s\<lparr>seenMu := Some t, place_of := (place_of s)(t := Locked), snapshot := seen s\<rparr>"
  have r1: "reachable parse urlOf m ?s1"
    using after_step[OF assms(1) step.lock[where s=s and t=t and parse=parse and urlOf=urlOf, OF assms(2,3)]] .
  have l1: "place_of ?s1 t = Locked" by simp
  show ?thesis
  proof (cases "parse (urlOf t)")
    case None
    let ?s2 = "?s1\<lparr>place_of := (place_of ?s1)(t := Returning False)\<rparr>"
    have r2: "reachable parse urlOf m ?s2"
      using after_step[OF r1 step.parse_error[where s="?s1" and t=t and parse=parse and urlOf=urlOf, OF l1 None]] .
    have l2: "place_of ?s2 t = Returning False" by simp
    have r3: "reachable parse urlOf m
        (?s2\<lparr>seenMu := None, place_of := (place_of ?s2)(t := Finished False)\<rparr>)"
      using after_step[OF r2 step.unlock[where s="?s2" and t=t and parse=parse and urlOf=urlOf, OF l2]] .
    have "?s2\<lparr>seenMu := None, place_of := (place_of ?s2)(t := Finished False)\<rparr>
            = complete parse urlOf t s"
      using None by (simp add: complete_def markSeen_def)
    with r3 show ?thesis by simp
  next
    case (Some parsed)
    show ?thesis
    proof (cases "present (seen s) (normalizedKey parsed)")
      case True
      then have p: "present (seen ?s1) (normalizedKey parsed)" by simp
      let ?s2 = "?s1\<lparr>place_of := (place_of ?s1)(t := Returning False)\<rparr>"
      have r2: "reachable parse urlOf m ?s2"
        using after_step[OF r1 step.already_seen[where s="?s1" and t=t and parse=parse and urlOf=urlOf, OF l1 Some p]] .
      have l2: "place_of ?s2 t = Returning False" by simp
      have r3: "reachable parse urlOf m
          (?s2\<lparr>seenMu := None, place_of := (place_of ?s2)(t := Finished False)\<rparr>)"
        using after_step[OF r2 step.unlock[where s="?s2" and t=t and parse=parse and urlOf=urlOf, OF l2]] .
      have "?s2\<lparr>seenMu := None, place_of := (place_of ?s2)(t := Finished False)\<rparr>
              = complete parse urlOf t s"
        using Some True by (simp add: complete_def markSeen_def)
      with r3 show ?thesis by simp
    next
      case False
      then have p: "\<not> present (seen ?s1) (normalizedKey parsed)" by simp
      let ?k = "normalizedKey parsed"
      let ?s2 = "?s1\<lparr>place_of := (place_of ?s1)(t := Inserting ?k)\<rparr>"
      have r2: "reachable parse urlOf m ?s2"
        using after_step[OF r1 step.is_new[where s="?s1" and t=t and parse=parse and urlOf=urlOf, OF l1 Some p]] .
      have l2: "place_of ?s2 t = Inserting ?k" by simp
      let ?s3 = "?s2\<lparr>seen := (seen ?s2)(?k \<mapsto> True),
                     place_of := (place_of ?s2)(t := Returning True)\<rparr>"
      have r3: "reachable parse urlOf m ?s3"
        using after_step[OF r2 step.insert[where s="?s2" and t=t and parse=parse and urlOf=urlOf, OF l2]] .
      have l3: "place_of ?s3 t = Returning True" by simp
      have r4: "reachable parse urlOf m
          (?s3\<lparr>seenMu := None, place_of := (place_of ?s3)(t := Finished True)\<rparr>)"
        using after_step[OF r3 step.unlock[where s="?s3" and t=t and parse=parse and urlOf=urlOf, OF l3]] .
      have "?s3\<lparr>seenMu := None, place_of := (place_of ?s3)(t := Finished True)\<rparr>
              = complete parse urlOf t s"
        using Some False by (simp add: complete_def markSeen_def Let_def)
      with r4 show ?thesis by simp
    qed
  qed
qed

text \<open>
  C8, as amended. \<open>markSeen\<close> normalizes a URL to the text made of the scheme,
  \<open>://\<close>, the host and the path of its parsed form: that text is the key looked up
  and inserted, it does not depend on the query string or the fragment, and an
  argument that does not parse is answered \<open>false\<close> and changes nothing. For two
  parseable URLs that agree in scheme, host and path, so that they differ in query
  string or fragment only, and whose key is not yet in the map, the first call returns
  \<open>true\<close> and the second \<open>false\<close>. For two parseable URLs with neither key in the map,
  the first call returns \<open>true\<close>, and the second returns \<open>true\<close> exactly when the two
  texts differ; they do when the URLs agree in two of scheme, host and path and differ
  in the third. Check and insertion are one critical section under the mutex: among
  concurrent calls at most one is inside it; the key found absent by the check is
  still absent when it is inserted, and the call's result and its effect on the map are
  those of \<open>markSeen\<close> on the map as it was when the lock was taken; so no two calls with
  the same key both return \<open>true\<close>; and a call that finds the mutex free can run to its
  return.
\<close>

theorem markSeen_spec:
  "(parse u = Some p \<longrightarrow>
      markSeen parse m0 u
        = (if present m0 (Scheme p @ ''://'' @ Host p @ Path p) then (False, m0)
           else (True, m0(Scheme p @ ''://'' @ Host p @ Path p \<mapsto> True))))
   \<and> normalizedKey (p\<lparr>RawQuery := q, Fragment := f\<rparr>) = normalizedKey p
   \<and> (parse u = None \<longrightarrow> markSeen parse m0 u = (False, m0))
   \<and> (parse ua = Some pa \<and> parse ub = Some pb
        \<and> Scheme pa = Scheme pb \<and> Host pa = Host pb \<and> Path pa = Path pb
        \<and> \<not> present m0 (normalizedKey pa) \<longrightarrow>
        fst (markSeen parse m0 ua)
        \<and> \<not> fst (markSeen parse (snd (markSeen parse m0 ua)) ub))
   \<and> (parse ua = Some pa \<and> parse ub = Some pb
        \<and> \<not> present m0 (normalizedKey pa) \<and> \<not> present m0 (normalizedKey pb) \<longrightarrow>
        fst (markSeen parse m0 ua)
        \<and> (fst (markSeen parse (snd (markSeen parse m0 ua)) ub)
             \<longleftrightarrow> Scheme pa @ ''://'' @ Host pa @ Path pa
                   \<noteq> Scheme pb @ ''://'' @ Host pb @ Path pb))
   \<and> (parse ua = Some pa \<and> parse ub = Some pb
        \<and> Scheme pa = Scheme pb \<and> Host pa = Host pb \<and> Path pa \<noteq> Path pb
        \<and> \<not> present m0 (normalizedKey pa) \<and> \<not> present m0 (normalizedKey pb) \<longrightarrow>
        fst (markSeen parse m0 ua)
        \<and> fst (markSeen parse (snd (markSeen parse m0 ua)) ub))
   \<and> (parse ua = Some pa \<and> parse ub = Some pb
        \<and> Scheme pa = Scheme pb \<and> Host pa \<noteq> Host pb \<and> Path pa = Path pb
        \<and> \<not> present m0 (normalizedKey pa) \<and> \<not> present m0 (normalizedKey pb) \<longrightarrow>
        fst (markSeen parse m0 ua)
        \<and> fst (markSeen parse (snd (markSeen parse m0 ua)) ub))
   \<and> (parse ua = Some pa \<and> parse ub = Some pb
        \<and> Scheme pa \<noteq> Scheme pb \<and> Host pa = Host pb \<and> Path pa = Path pb
        \<and> \<not> present m0 (normalizedKey pa) \<and> \<not> present m0 (normalizedKey pb) \<longrightarrow>
        fst (markSeen parse m0 ua)
        \<and> fst (markSeen parse (snd (markSeen parse m0 ua)) ub))
   \<and> (reachable parse urlOf m s \<and> inside (place_of s t) \<and> inside (place_of s t') \<longrightarrow> t = t')
   \<and> (reachable parse urlOf m s \<and> place_of s t = Inserting k \<longrightarrow>
        seen s = snapshot s \<and> \<not> present (seen s) k
        \<and> markSeen parse (snapshot s) (urlOf t) = (True, (seen s)(k \<mapsto> True)))
   \<and> (reachable parse urlOf m s \<and> place_of s t = Returning b \<longrightarrow>
        markSeen parse (snapshot s) (urlOf t) = (b, seen s))
   \<and> (reachable parse urlOf m s \<and> place_of s t = Finished True \<and> place_of s t' = Finished True
        \<and> key_of parse (urlOf t) = key_of parse (urlOf t') \<longrightarrow> t = t')
   \<and> (reachable parse urlOf m s \<and> place_of s t = Start \<and> seenMu s = None \<longrightarrow>
        reachable parse urlOf m (complete parse urlOf t s))"
    (is "?key \<and> ?norm \<and> ?bad \<and> ?same \<and> ?exact \<and> ?path \<and> ?host \<and> ?scheme
         \<and> ?mutex \<and> ?atomic \<and> ?result \<and> ?once \<and> ?serial")
proof -
  have key: ?key by (simp add: markSeen_def Let_def normalizedKey_def)
  have norm: ?norm by (simp add: normalizedKey_def)
  have bad: ?bad by (simp add: markSeen_def)
  have same: ?same
    by (auto simp: markSeen_def Let_def normalizedKey_def present_def)
  have exact: ?exact
    by (auto simp: markSeen_def Let_def normalizedKey_def present_def)
  have path: ?path
    by (auto simp: markSeen_def Let_def normalizedKey_def present_def)
  have host: ?host
    by (auto simp: markSeen_def Let_def normalizedKey_def present_def)
  have scheme: ?scheme
    by (auto simp: markSeen_def Let_def normalizedKey_def present_def)
  have mutex: ?mutex
  proof
    assume h: "reachable parse urlOf m s \<and> inside (place_of s t) \<and> inside (place_of s t')"
    then have "seen_inv parse urlOf m s" by (simp add: reachable_inv)
    then have "\<forall>t. inside (place_of s t) \<longleftrightarrow> seenMu s = Some t"
      unfolding seen_inv_def by blast
    with h show "t = t'" by (metis option.inject)
  qed
  have atomic: ?atomic
  proof
    assume h: "reachable parse urlOf m s \<and> place_of s t = Inserting k"
    then have "seen_inv parse urlOf m s" by (simp add: reachable_inv)
    with h have c: "seen s = snapshot s" "key_of parse (urlOf t) = Some k"
      "\<not> present (seen s) k"
      unfolding seen_inv_def by blast+
    then obtain parsed where "parse (urlOf t) = Some parsed" "normalizedKey parsed = k"
      by (auto simp: key_of_def)
    with c show "seen s = snapshot s \<and> \<not> present (seen s) k
        \<and> markSeen parse (snapshot s) (urlOf t) = (True, (seen s)(k \<mapsto> True))"
      by (simp add: markSeen_def Let_def)
  qed
  have result: ?result
  proof
    assume h: "reachable parse urlOf m s \<and> place_of s t = Returning b"
    then have "seen_inv parse urlOf m s" by (simp add: reachable_inv)
    with h show "markSeen parse (snapshot s) (urlOf t) = (b, seen s)"
      unfolding seen_inv_def by blast
  qed
  have once: ?once
  proof
    assume h: "reachable parse urlOf m s \<and> place_of s t = Finished True
        \<and> place_of s t' = Finished True \<and> key_of parse (urlOf t) = key_of parse (urlOf t')"
    then have "seen_inv parse urlOf m s" by (simp add: reachable_inv)
    then have "\<forall>t t'. claims_new (place_of s t) \<and> claims_new (place_of s t')
          \<and> key_of parse (urlOf t) = key_of parse (urlOf t') \<longrightarrow> t = t'"
      unfolding seen_inv_def by blast
    moreover have "claims_new (place_of s t)" "claims_new (place_of s t')"
      using h by (simp_all add: claims_new_def)
    ultimately show "t = t'" using h by blast
  qed
  have serial: ?serial using reachable_complete[of parse urlOf m s t] by blast
  from key norm bad same exact path host scheme mutex atomic result once serial
  show ?thesis by (intro conjI)
qed

text \<open>
  URLs on an empty map: after \<open>https://example.com/a?x=1\<close>, the same page with a
  fragment is not new, while another path, another scheme and another host are; and
  two concurrent calls whose URLs differ in query and fragment only: the first to take
  the lock answers \<open>true\<close>, the other \<open>false\<close>.
\<close>

lemma reachable_lockedByFirst: "reachable exampleParse twoCalls Map.empty lockedByFirst"
  unfolding lockedByFirst_def
  by (rule after_step[OF at_start]) (rule step.lock; simp add: initial_def)

lemma exampleParse_values:
  "exampleParse ''https://example.com/a?x=1''
     = Some \<lparr>Scheme = ''https'', Host = ''example.com'', Path = ''/a'', RawQuery = ''x=1'',
             Fragment = ''''\<rparr>"
  "exampleParse ''https://example.com/a#top''
     = Some \<lparr>Scheme = ''https'', Host = ''example.com'', Path = ''/a'', RawQuery = '''',
             Fragment = ''top''\<rparr>"
  "exampleParse ''https://example.com/b?x=1''
     = Some \<lparr>Scheme = ''https'', Host = ''example.com'', Path = ''/b'', RawQuery = ''x=1'',
             Fragment = ''''\<rparr>"
  "exampleParse ''http://example.com/a''
     = Some \<lparr>Scheme = ''http'', Host = ''example.com'', Path = ''/a'', RawQuery = '''',
             Fragment = ''''\<rparr>"
  "exampleParse ''https://example.org/a''
     = Some \<lparr>Scheme = ''https'', Host = ''example.org'', Path = ''/a'', RawQuery = '''',
             Fragment = ''''\<rparr>"
  "exampleParse ''//example.com/a''
     = Some \<lparr>Scheme = '''', Host = ''example.com'', Path = ''/a'', RawQuery = '''',
             Fragment = ''''\<rparr>"
  "exampleParse ''example.com/a''
     = Some \<lparr>Scheme = '''', Host = '''', Path = ''example.com/a'', RawQuery = '''',
             Fragment = ''''\<rparr>"
  by (simp_all add: exampleParse_def)

theorem markSeen_spec_witness:
  "fst (markSeen exampleParse Map.empty ''https://example.com/a?x=1'')
   \<and> \<not> fst (markSeen exampleParse
            (snd (markSeen exampleParse Map.empty ''https://example.com/a?x=1''))
            ''https://example.com/a#top'')
   \<and> fst (markSeen exampleParse
            (snd (markSeen exampleParse Map.empty ''https://example.com/a?x=1''))
            ''https://example.com/b?x=1'')
   \<and> fst (markSeen exampleParse
            (snd (markSeen exampleParse Map.empty ''https://example.com/a?x=1''))
            ''http://example.com/a'')
   \<and> fst (markSeen exampleParse
            (snd (markSeen exampleParse Map.empty ''https://example.com/a?x=1''))
            ''https://example.org/a'')
   \<and> snd (markSeen exampleParse Map.empty ''https://example.com/a?x=1'')
       = [''https://example.com/a'' \<mapsto> True]
   \<and> reachable exampleParse twoCalls Map.empty lockedByFirst
   \<and> inside (place_of lockedByFirst 0)
   \<and> reachable exampleParse twoCalls Map.empty bothDone
   \<and> place_of bothDone 0 = Finished True
   \<and> place_of bothDone 1 = Finished False"
proof -
  let ?a = "''https://example.com/a?x=1''" and ?a' = "''https://example.com/a#top''"
    and ?b = "''https://example.com/b?x=1''" and ?c = "''http://example.com/a''"
    and ?d = "''https://example.org/a''"
  let ?pa = "\<lparr>Scheme = ''https'', Host = ''example.com'', Path = ''/a'', RawQuery = ''x=1'',
             Fragment = ''''\<rparr>"
  let ?pa' = "\<lparr>Scheme = ''https'', Host = ''example.com'', Path = ''/a'', RawQuery = '''',
             Fragment = ''top''\<rparr>"
  let ?pb = "\<lparr>Scheme = ''https'', Host = ''example.com'', Path = ''/b'', RawQuery = ''x=1'',
             Fragment = ''''\<rparr>"
  let ?pc = "\<lparr>Scheme = ''http'', Host = ''example.com'', Path = ''/a'', RawQuery = '''',
             Fragment = ''''\<rparr>"
  let ?pd = "\<lparr>Scheme = ''https'', Host = ''example.org'', Path = ''/a'', RawQuery = '''',
             Fragment = ''''\<rparr>"
  have e: "\<not> present Map.empty k" for k :: string by (simp add: present_def)
  have same: "fst (markSeen exampleParse Map.empty ?a)
      \<and> \<not> fst (markSeen exampleParse (snd (markSeen exampleParse Map.empty ?a)) ?a')"
  proof -
    have ante: "exampleParse ?a = Some ?pa \<and> exampleParse ?a' = Some ?pa'
        \<and> Scheme ?pa = Scheme ?pa' \<and> Host ?pa = Host ?pa' \<and> Path ?pa = Path ?pa'
        \<and> \<not> present Map.empty (normalizedKey ?pa)"
      by (simp add: exampleParse_values e)
    show ?thesis
      by (rule markSeen_spec[where parse=exampleParse and ?m0.0=Map.empty, THEN conjunct2,
            THEN conjunct2, THEN conjunct2, THEN conjunct1, THEN mp, OF ante])
  qed
  have path: "fst (markSeen exampleParse (snd (markSeen exampleParse Map.empty ?a)) ?b)"
  proof -
    have ante: "exampleParse ?a = Some ?pa \<and> exampleParse ?b = Some ?pb
        \<and> Scheme ?pa = Scheme ?pb \<and> Host ?pa = Host ?pb \<and> Path ?pa \<noteq> Path ?pb
        \<and> \<not> present Map.empty (normalizedKey ?pa) \<and> \<not> present Map.empty (normalizedKey ?pb)"
      by (simp add: exampleParse_values e)
    show ?thesis
      by (rule markSeen_spec[where parse=exampleParse and ?m0.0=Map.empty, THEN conjunct2,
            THEN conjunct2, THEN conjunct2, THEN conjunct2, THEN conjunct2, THEN conjunct1,
            THEN mp, OF ante, THEN conjunct2])
  qed
  have host: "fst (markSeen exampleParse (snd (markSeen exampleParse Map.empty ?a)) ?d)"
  proof -
    have ante: "exampleParse ?a = Some ?pa \<and> exampleParse ?d = Some ?pd
        \<and> Scheme ?pa = Scheme ?pd \<and> Host ?pa \<noteq> Host ?pd \<and> Path ?pa = Path ?pd
        \<and> \<not> present Map.empty (normalizedKey ?pa) \<and> \<not> present Map.empty (normalizedKey ?pd)"
      by (simp add: exampleParse_values e)
    show ?thesis
      by (rule markSeen_spec[where parse=exampleParse and ?m0.0=Map.empty, THEN conjunct2,
            THEN conjunct2, THEN conjunct2, THEN conjunct2, THEN conjunct2, THEN conjunct2,
            THEN conjunct1, THEN mp, OF ante, THEN conjunct2])
  qed
  have scheme: "fst (markSeen exampleParse (snd (markSeen exampleParse Map.empty ?a)) ?c)"
  proof -
    have ante: "exampleParse ?a = Some ?pa \<and> exampleParse ?c = Some ?pc
        \<and> Scheme ?pa \<noteq> Scheme ?pc \<and> Host ?pa = Host ?pc \<and> Path ?pa = Path ?pc
        \<and> \<not> present Map.empty (normalizedKey ?pa) \<and> \<not> present Map.empty (normalizedKey ?pc)"
      by (simp add: exampleParse_values e)
    show ?thesis
      by (rule markSeen_spec[where parse=exampleParse and ?m0.0=Map.empty, THEN conjunct2,
            THEN conjunct2, THEN conjunct2, THEN conjunct2, THEN conjunct2, THEN conjunct2,
            THEN conjunct2, THEN conjunct1, THEN mp, OF ante, THEN conjunct2])
  qed
  have key: "snd (markSeen exampleParse Map.empty ?a) = [''https://example.com/a'' \<mapsto> True]"
    using markSeen_spec[where parse=exampleParse and ?m0.0=Map.empty and u="?a" and p="?pa",
            THEN conjunct1, THEN mp, OF exampleParse_values(1)]
    by (simp add: e)
  have r0: "reachable exampleParse twoCalls Map.empty
              (complete exampleParse twoCalls 0 (initial Map.empty))"
  proof -
    have ante: "reachable exampleParse twoCalls Map.empty (initial Map.empty)
        \<and> place_of (initial Map.empty) 0 = Start \<and> seenMu (initial Map.empty) = None"
      using at_start[of exampleParse twoCalls Map.empty] by (simp add: initial_def)
    show ?thesis
      by (rule markSeen_spec[where parse=exampleParse and urlOf=twoCalls, THEN conjunct2,
            THEN conjunct2, THEN conjunct2, THEN conjunct2, THEN conjunct2, THEN conjunct2,
            THEN conjunct2, THEN conjunct2, THEN conjunct2, THEN conjunct2, THEN conjunct2,
            THEN conjunct2, THEN mp, OF ante])
  qed
  have r1: "reachable exampleParse twoCalls Map.empty bothDone"
  proof -
    let ?s = "complete exampleParse twoCalls 0 (initial Map.empty)"
    have ante: "reachable exampleParse twoCalls Map.empty ?s
        \<and> place_of ?s 1 = Start \<and> seenMu ?s = None"
      using r0 by (simp add: complete_def initial_def)
    show ?thesis
      unfolding bothDone_def
      by (rule markSeen_spec[where parse=exampleParse and urlOf=twoCalls, THEN conjunct2,
            THEN conjunct2, THEN conjunct2, THEN conjunct2, THEN conjunct2, THEN conjunct2,
            THEN conjunct2, THEN conjunct2, THEN conjunct2, THEN conjunct2, THEN conjunct2,
            THEN conjunct2, THEN mp, OF ante])
  qed
  have p: "place_of bothDone 0 = Finished True" "place_of bothDone 1 = Finished False"
    by (simp_all add: bothDone_def complete_def initial_def twoCalls_def markSeen_def
          exampleParse_values normalizedKey_def present_def Let_def)
  have i: "inside (place_of lockedByFirst 0)"
    by (simp add: lockedByFirst_def inside_def)
  from same path scheme host key reachable_lockedByFirst i r1 p show ?thesis by simp
qed

text \<open>
  The claim as first stated, that two URLs which differ in path are both new, fails
  for \<open>//example.com/a\<close>, with the host \<open>example.com\<close> and the path \<open>/a\<close>, and
  \<open>example.com/a\<close>, with no host and the path \<open>example.com/a\<close>: neither has a scheme,
  both have the key \<open>://example.com/a\<close>, and the second call returns \<open>false\<close>.
\<close>

theorem markSeen_spec_counterexample:
  "map_option Path (exampleParse ''//example.com/a'') = Some ''/a''
   \<and> map_option Path (exampleParse ''example.com/a'') = Some ''example.com/a''
   \<and> map_option normalizedKey (exampleParse ''//example.com/a'') = Some ''://example.com/a''
   \<and> map_option normalizedKey (exampleParse ''example.com/a'') = Some ''://example.com/a''
   \<and> fst (markSeen exampleParse Map.empty ''//example.com/a'')
   \<and> \<not> fst (markSeen exampleParse (snd (markSeen exampleParse Map.empty ''//example.com/a''))
            ''example.com/a'')"
  by (simp add: exampleParse_values markSeen_def normalizedKey_def present_def Let_def)
section \<open>Properties of ParallelMap\<close>

lemma upd_set:
  "i < n \<Longrightarrow> {j. j < n \<and> P ((f(i := p)) j)}
     = (if P p then insert i {j. j < n \<and> P (f j)} else {j. j < n \<and> P (f j)} - {i})"
  by auto

lemma same_set:
  "i < n \<Longrightarrow> P (f i) = P p \<Longrightarrow> {j. j < n \<and> P ((f(i := p)) j)} = {j. j < n \<and> P (f j)}"
  by auto

lemma finite_holders: "finite (holders items s)"
  by (simp add: holders_def)

lemma first_error_snoc:
  "first_error items fn (order @ [i])
     = (case first_error items fn order of
          Some e \<Rightarrow> Some e
        | None \<Rightarrow> (case fn (items ! i) of Inl e \<Rightarrow> Some e | Inr r \<Rightarrow> None))"
  by (auto simp: first_error_def split: list.splits sum.splits)

lemma par_inv_started: "par_inv items fn workers zero (started items zero)"
  by (auto simp: par_inv_def started_def holders_def slots_def first_error_def)

lemma par_inv_pstep:
  assumes inv: "par_inv items fn workers zero s" and st: "pstep items fn workers s s'"
  shows "par_inv items fn workers zero s'"
proof -
  let ?n = "length items"
  from inv have
    sem: "sem s = card (holders items s)" and
    bound: "int (sem s) \<le> slots items workers" and
    len: "length (results s) = ?n" and
    da: "distinct (applied s)" and
    sa: "set (applied s) = {i. i < ?n \<and> called (phase_of s i)}" and
    ds: "distinct (settled s)" and
    ss: "set (settled s) = {i. i < ?n \<and> hasSettled (phase_of s i)}" and
    res: "\<forall>i<?n. results s ! i
          = (if i \<in> set (settled s)
             then (case fn (items ! i) of Inr r \<Rightarrow> r | Inl e \<Rightarrow> zero) else zero)" and
    er: "errs s = first_error items fn (settled s)" and
    sk: "\<forall>i<?n. phase_of s i = Skipped \<longrightarrow> cancelled s"
    unfolding par_inv_def by blast+
  from st show ?thesis
  proof cases
    case cancel
    show ?thesis using inv unfolding cancel(1) par_inv_def holders_def by simp
  next
    case (skip i)
    have ph: "phase_of s' = (phase_of s)(i := Skipped)" unfolding skip(1) by simp
    have f: "sem s' = sem s" "results s' = results s" "applied s' = applied s"
      "settled s' = settled s" "errs s' = errs s" "cancelled s' = cancelled s"
      unfolding skip(1) by simp_all
    have h: "holders items s' = holders items s"
      unfolding holders_def ph using skip(2,3) by (auto split: if_splits)
    have c: "{j. j < ?n \<and> called (phase_of s' j)} = {j. j < ?n \<and> called (phase_of s j)}"
      unfolding ph using skip(2,3) by (auto split: if_splits)
    have d: "{j. j < ?n \<and> hasSettled (phase_of s' j)} = {j. j < ?n \<and> hasSettled (phase_of s j)}"
      unfolding ph using skip(2,3) by (auto split: if_splits)
    have k: "\<forall>j<?n. phase_of s' j = Skipped \<longrightarrow> cancelled s'"
      unfolding ph f using sk skip(4) by simp
    show ?thesis
      unfolding par_inv_def h c d f using sem bound len da sa ds ss res er k[unfolded f]
      by simp
  next
    case (pass i)
    have ph: "phase_of s' = (phase_of s)(i := Waiting)" unfolding pass(1) by simp
    have f: "sem s' = sem s" "results s' = results s" "applied s' = applied s"
      "settled s' = settled s" "errs s' = errs s" "cancelled s' = cancelled s"
      unfolding pass(1) by simp_all
    have h: "holders items s' = holders items s"
      unfolding holders_def ph using pass(2,3) by (auto split: if_splits)
    have c: "{j. j < ?n \<and> called (phase_of s' j)} = {j. j < ?n \<and> called (phase_of s j)}"
      unfolding ph using pass(2,3) by (auto split: if_splits)
    have d: "{j. j < ?n \<and> hasSettled (phase_of s' j)} = {j. j < ?n \<and> hasSettled (phase_of s j)}"
      unfolding ph using pass(2,3) by (auto split: if_splits)
    have k: "\<forall>j<?n. phase_of s' j = Skipped \<longrightarrow> cancelled s"
      unfolding ph using sk by simp
    show ?thesis
      unfolding par_inv_def h c d f using sem bound len da sa ds ss res er k
      by simp
  next
    case (acquire i)
    have ph: "phase_of s' = (phase_of s)(i := Running)" unfolding acquire(1) by simp
    have f: "sem s' = sem s + 1" "results s' = results s" "applied s' = applied s"
      "settled s' = settled s" "errs s' = errs s" "cancelled s' = cancelled s"
      unfolding acquire(1) by simp_all
    have ni: "i \<notin> holders items s" using acquire(3) by (simp add: holders_def)
    have h: "holders items s' = insert i (holders items s)"
      unfolding holders_def ph using acquire(2) by (auto split: if_splits)
    have ch: "card (holders items s') = card (holders items s) + 1"
      unfolding h using ni finite_holders[of items s] by simp
    have c: "{j. j < ?n \<and> called (phase_of s' j)} = {j. j < ?n \<and> called (phase_of s j)}"
      unfolding ph using acquire(2,3) by (auto split: if_splits)
    have d: "{j. j < ?n \<and> hasSettled (phase_of s' j)} = {j. j < ?n \<and> hasSettled (phase_of s j)}"
      unfolding ph using acquire(2,3) by (auto split: if_splits)
    have k: "\<forall>j<?n. phase_of s' j = Skipped \<longrightarrow> cancelled s"
      unfolding ph using sk by simp
    show ?thesis
      unfolding par_inv_def ch c d f using sem bound len da sa ds ss res er k acquire(4)
      by simp
  next
    case (return i)
    have ph: "phase_of s' = (phase_of s)(i := Returned)" unfolding return(1) by simp
    have f: "sem s' = sem s" "results s' = results s" "applied s' = applied s @ [i]"
      "settled s' = settled s" "errs s' = errs s" "cancelled s' = cancelled s"
      unfolding return(1) by simp_all
    have h: "holders items s' = holders items s"
      unfolding holders_def ph using return(2,3) by (auto split: if_splits)
    have c: "{j. j < ?n \<and> called (phase_of s' j)}
               = insert i {j. j < ?n \<and> called (phase_of s j)}"
      unfolding ph using return(2) by (auto split: if_splits)
    have d: "{j. j < ?n \<and> hasSettled (phase_of s' j)} = {j. j < ?n \<and> hasSettled (phase_of s j)}"
      unfolding ph using return(2,3) by (auto split: if_splits)
    have na: "i \<notin> set (applied s)" using sa return(3) by simp
    have k: "\<forall>j<?n. phase_of s' j = Skipped \<longrightarrow> cancelled s"
      unfolding ph using sk by simp
    show ?thesis
      unfolding par_inv_def h c d f using sem bound len da sa ds ss res er k na
      by simp
  next
    case (store i r)
    have ph: "phase_of s' = (phase_of s)(i := Releasing)" unfolding store(1) by simp
    have f: "sem s' = sem s" "results s' = (results s)[i := r]" "applied s' = applied s"
      "settled s' = settled s @ [i]" "errs s' = errs s" "cancelled s' = cancelled s"
      unfolding store(1) by simp_all
    have h: "holders items s' = holders items s"
      unfolding holders_def ph using store(2,3) by (auto split: if_splits)
    have c: "{j. j < ?n \<and> called (phase_of s' j)} = {j. j < ?n \<and> called (phase_of s j)}"
      unfolding ph using store(2,3) by (auto split: if_splits)
    have d: "{j. j < ?n \<and> hasSettled (phase_of s' j)}
               = insert i {j. j < ?n \<and> hasSettled (phase_of s j)}"
      unfolding ph using store(2) by (auto split: if_splits)
    have ns: "i \<notin> set (settled s)" using ss store(3) by simp
    have fe: "first_error items fn (settled s @ [i]) = first_error items fn (settled s)"
      using store(4) by (simp add: first_error_snoc split: option.splits)
    have k: "\<forall>j<?n. phase_of s' j = Skipped \<longrightarrow> cancelled s"
      unfolding ph using sk by simp
    have res': "\<forall>j<?n. (results s)[i := r] ! j
          = (if j \<in> set (settled s @ [i])
             then (case fn (items ! j) of Inr r \<Rightarrow> r | Inl e \<Rightarrow> zero) else zero)"
      using res len store(2,4) by (auto simp: nth_list_update)
    show ?thesis
      unfolding par_inv_def h c d f fe using sem bound len da sa ds ss er k ns res'
      by simp
  next
    case (send i e)
    have ph: "phase_of s' = (phase_of s)(i := Releasing)" unfolding send(1) by simp
    have f: "sem s' = sem s" "results s' = results s" "applied s' = applied s"
      "settled s' = settled s @ [i]"
      "errs s' = (case errs s of None \<Rightarrow> Some e | Some e' \<Rightarrow> Some e')"
      "cancelled s' = cancelled s"
      unfolding send(1) by simp_all
    have h: "holders items s' = holders items s"
      unfolding holders_def ph using send(2,3) by (auto split: if_splits)
    have c: "{j. j < ?n \<and> called (phase_of s' j)} = {j. j < ?n \<and> called (phase_of s j)}"
      unfolding ph using send(2,3) by (auto split: if_splits)
    have d: "{j. j < ?n \<and> hasSettled (phase_of s' j)}
               = insert i {j. j < ?n \<and> hasSettled (phase_of s j)}"
      unfolding ph using send(2) by (auto split: if_splits)
    have ns: "i \<notin> set (settled s)" using ss send(3) by simp
    have fe: "first_error items fn (settled s @ [i])
                = (case errs s of None \<Rightarrow> Some e | Some e' \<Rightarrow> Some e')"
      using send(4) er by (simp add: first_error_snoc split: option.splits)
    have k: "\<forall>j<?n. phase_of s' j = Skipped \<longrightarrow> cancelled s"
      unfolding ph using sk by simp
    have res': "\<forall>j<?n. results s ! j
          = (if j \<in> set (settled s @ [i])
             then (case fn (items ! j) of Inr r \<Rightarrow> r | Inl e \<Rightarrow> zero) else zero)"
      using res ns send(2,4) by auto
    show ?thesis
      unfolding par_inv_def h c d f fe using sem bound len da sa ds ss k ns res'
      by simp
  next
    case (release i)
    have ph: "phase_of s' = (phase_of s)(i := Ended)" unfolding release(1) by simp
    have f: "sem s' = sem s - 1" "results s' = results s" "applied s' = applied s"
      "settled s' = settled s" "errs s' = errs s" "cancelled s' = cancelled s"
      unfolding release(1) by simp_all
    have ii: "i \<in> holders items s" using release(2,3) by (simp add: holders_def)
    have h: "holders items s' = holders items s - {i}"
      unfolding holders_def ph using release(2) by (auto split: if_splits)
    have ch: "card (holders items s') = card (holders items s) - 1"
      unfolding h using ii finite_holders[of items s] by simp
    have c: "{j. j < ?n \<and> called (phase_of s' j)} = {j. j < ?n \<and> called (phase_of s j)}"
      unfolding ph using release(2,3) by (auto split: if_splits)
    have d: "{j. j < ?n \<and> hasSettled (phase_of s' j)} = {j. j < ?n \<and> hasSettled (phase_of s j)}"
      unfolding ph using release(2,3) by (auto split: if_splits)
    have k: "\<forall>j<?n. phase_of s' j = Skipped \<longrightarrow> cancelled s"
      unfolding ph using sk by simp
    show ?thesis
      unfolding par_inv_def ch c d f using sem bound len da sa ds ss res er k
      by simp
  qed
qed

lemma running_inv: "running items fn workers zero s \<Longrightarrow> par_inv items fn workers zero s"
  by (induction rule: running.induct) (auto intro: par_inv_started par_inv_pstep)

lemma pstep_advance:
  assumes "enabled items workers i s"
  shows "pstep items fn workers s (advance items fn i s)"
proof -
  from assms have i: "i < length items" by (simp add: enabled_def)
  show ?thesis
  proof (cases "phase_of s i")
    case Spawned
    show ?thesis
    proof (cases "cancelled s")
      case True
      with Spawned show ?thesis
        using pstep.skip[where items=items and fn=fn and workers=workers, OF i Spawned True]
        by (simp add: advance_def)
    next
      case False
      with Spawned show ?thesis
        using pstep.pass[where items=items and fn=fn and workers=workers, OF i Spawned False]
        by (simp add: advance_def)
    qed
  next
    case Skipped
    with assms show ?thesis by (simp add: enabled_def)
  next
    case Waiting
    with assms have free: "int (sem s) < slots items workers" by (simp add: enabled_def)
    show ?thesis
      using pstep.acquire[where items=items and fn=fn and workers=workers, OF i Waiting free]
        Waiting
      by (simp add: advance_def)
  next
    case Running
    show ?thesis
      using pstep.return[where items=items and fn=fn and workers=workers, OF i Running]
        Running
      by (simp add: advance_def)
  next
    case Returned
    show ?thesis
    proof (cases "fn (items ! i)")
      case (Inl e)
      show ?thesis
        using pstep.send[where items=items and fn=fn and workers=workers, OF i Returned Inl]
          Returned Inl
        by (simp add: advance_def)
    next
      case (Inr r)
      show ?thesis
        using pstep.store[where items=items and fn=fn and workers=workers, OF i Returned Inr]
          Returned Inr
        by (simp add: advance_def)
    qed
  next
    case Releasing
    show ?thesis
      using pstep.release[where items=items and fn=fn and workers=workers, OF i Releasing]
        Releasing
      by (simp add: advance_def)
  next
    case Ended
    with assms show ?thesis by (simp add: enabled_def)
  qed
qed

lemma advance_follows:
  assumes "enabled items workers i s"
  shows "follows (phase_of s i) (phase_of (advance items fn i s) i)"
  using assms
  by (cases "phase_of s i") (auto simp: enabled_def advance_def split: sum.splits)

lemma running_schedule:
  assumes "running items fn workers zero s" "feasible items fn workers js s"
  shows "running items fn workers zero (schedule items fn js s)"
  using assms
proof (induction js arbitrary: s)
  case Nil
  then show ?case by simp
next
  case (Cons i js)
  from Cons.prems(2) have e: "enabled items workers i s"
    and f: "feasible items fn workers js (advance items fn i s)" by simp_all
  have "running items fn workers zero (advance items fn i s)"
    using after_pstep[OF Cons.prems(1) pstep_advance[OF e]] .
  from Cons.IH[OF this f] show ?case by simp
qed

lemma pstep_follows:
  assumes "pstep items fn workers s s'" "phase_of s' j \<noteq> phase_of s j"
  shows "j < length items \<and> follows (phase_of s j) (phase_of s' j)
       \<and> (phase_of s' j = Skipped \<longrightarrow> cancelled s)
       \<and> (phase_of s' j = Waiting \<longrightarrow> \<not> cancelled s)"
  using assms by cases (auto split: if_splits)

lemma work_left_upd:
  assumes "i < length items"
  shows "work_left items (s\<lparr>phase_of := (phase_of s)(i := p)\<rparr>) + remaining (phase_of s i)
           = work_left items s + remaining p"
proof -
  have f: "finite {..<length items}" and m: "i \<in> {..<length items}" using assms by simp_all
  have "(\<Sum>j<length items. remaining (((phase_of s)(i := p)) j))
          = remaining p + (\<Sum>j\<in>{..<length items} - {i}. remaining (((phase_of s)(i := p)) j))"
    using sum.remove[OF f m, of "\<lambda>j. remaining (((phase_of s)(i := p)) j)"] by simp
  moreover have "(\<Sum>j\<in>{..<length items} - {i}. remaining (((phase_of s)(i := p)) j))
          = (\<Sum>j\<in>{..<length items} - {i}. remaining (phase_of s j))"
    by (rule sum.cong) auto
  moreover have "(\<Sum>j<length items. remaining (phase_of s j))
          = remaining (phase_of s i) + (\<Sum>j\<in>{..<length items} - {i}. remaining (phase_of s j))"
    using sum.remove[OF f m, of "\<lambda>j. remaining (phase_of s j)"] by simp
  ultimately show ?thesis by (simp add: work_left_def)
qed

lemma work_left_other [simp]:
  "work_left items (s\<lparr>sem := a\<rparr>) = work_left items s"
  "work_left items (s\<lparr>results := b\<rparr>) = work_left items s"
  "work_left items (s\<lparr>errs := c\<rparr>) = work_left items s"
  "work_left items (s\<lparr>cancelled := d\<rparr>) = work_left items s"
  "work_left items (s\<lparr>applied := e\<rparr>) = work_left items s"
  "work_left items (s\<lparr>settled := g\<rparr>) = work_left items s"
  by (simp_all add: work_left_def)

lemma pstep_work_left:
  assumes "pstep items fn workers s s'"
  shows "work_left items s' < work_left items s
       \<or> (work_left items s' = work_left items s \<and> \<not> cancelled s \<and> cancelled s')"
  using assms
proof cases
  case cancel
  then show ?thesis by simp
next
  case (skip i)
  then show ?thesis using work_left_upd[OF skip(2), of s Skipped] by simp
next
  case (pass i)
  then show ?thesis using work_left_upd[OF pass(2), of s Waiting] by simp
next
  case (acquire i)
  then show ?thesis using work_left_upd[OF acquire(2), of s Running] by simp
next
  case (return i)
  then show ?thesis using work_left_upd[OF return(2), of s Returned] by simp
next
  case (store i r)
  then show ?thesis using work_left_upd[OF store(2), of s Releasing] by simp
next
  case (send i e)
  then show ?thesis using work_left_upd[OF send(2), of s Releasing] by simp
next
  case (release i)
  then show ?thesis using work_left_upd[OF release(2), of s Ended] by simp
qed

lemma holding_enabled:
  "i < length items \<Longrightarrow> holding (phase_of s i) \<Longrightarrow> enabled items workers i s"
  by (cases "phase_of s i") (simp_all add: enabled_def)

lemma can_step:
  assumes inv: "par_inv items fn workers zero s" and ne: "\<not> all_ended items s"
  shows "\<exists>i. enabled items workers i s"
proof -
  from ne obtain i where i: "i < length items" "phase_of s i \<noteq> Ended" "phase_of s i \<noteq> Skipped"
    unfolding all_ended_def by blast
  show ?thesis
  proof (cases "phase_of s i = Waiting \<and> \<not> int (sem s) < slots items workers")
    case False
    with i have "enabled items workers i s"
      by (cases "phase_of s i") (simp_all add: enabled_def)
    then show ?thesis ..
  next
    case True
    have "0 < slots items workers" using i(1) by (auto simp: slots_def)
    with True have "0 < sem s" by simp
    then have "holders items s \<noteq> {}" using inv unfolding par_inv_def by auto
    then obtain j where "j < length items" "holding (phase_of s j)"
      by (auto simp: holders_def)
    then have "enabled items workers j s" by (rule holding_enabled)
    then show ?thesis ..
  qed
qed

text \<open>
  C4, as amended. In every state that the goroutines of \<open>ParallelMap\<close> reach: the
  goroutines inside \<open>fn\<close> are among those that hold a slot, which are at most
  \<open>workers\<close>, or at most the number of items when \<open>workers \<le> 0\<close>; the slice of results
  has one entry for each item. \<open>fn\<close> has been applied, once, to exactly the items whose
  goroutine has got past the call: when all goroutines have ended these are the items
  whose goroutine did not return at its check, and all items when the context was
  never done. A goroutine returns at its check only if the context is done there; its
  item is not applied and its entry of the results keeps the zero value. A goroutine
  moves through its phases in the order of the code, and goes on to the semaphore only
  from a check that found the context not done. The entry of an item holds the result
  of \<open>fn\<close> once its goroutine has stored it, whatever the order of the stores, and the
  zero value otherwise. When all goroutines have ended, none returned at its check and
  no call failed, \<open>ParallelMap\<close> returns the results of \<open>fn\<close> in the order of the items
  and no error. In general it returns the first error captured: the error of the
  failing goroutine that was the first to reach the channel \<open>errs\<close>, if there is one,
  and the slice of results otherwise. A failure stops no other goroutine: as long as a
  goroutine has not ended some goroutine can take a step, one that holds a slot always
  can, a step that can be taken leads to the next phase, every step other than the
  context becoming done brings the end nearer, so that \<open>wg.Wait()\<close> returns; and every
  list of steps that can be taken in turn leads to a state that the goroutines reach.
\<close>

theorem ParallelMap_spec:
  assumes "running items fn workers zero s"
  shows "int (card (inside_fn items s)) \<le> int (card (holders items s))
   \<and> int (card (holders items s)) \<le> slots items workers
   \<and> length (results s) = length items
   \<and> distinct (applied s)
   \<and> set (applied s) = {i. i < length items \<and> called (phase_of s i)}
   \<and> (all_ended items s \<longrightarrow>
        set (applied s) = {i. i < length items \<and> phase_of s i \<noteq> Skipped})
   \<and> (all_ended items s \<and> \<not> cancelled s \<longrightarrow> set (applied s) = {..<length items})
   \<and> (i < length items \<and> phase_of s i = Skipped \<longrightarrow>
        cancelled s \<and> i \<notin> set (applied s) \<and> results s ! i = zero)
   \<and> (pstep items fn workers s s' \<and> phase_of s' i \<noteq> phase_of s i \<longrightarrow>
        follows (phase_of s i) (phase_of s' i)
        \<and> (phase_of s' i = Skipped \<longrightarrow> cancelled s)
        \<and> (phase_of s' i = Waiting \<longrightarrow> \<not> cancelled s))
   \<and> (\<forall>j<length items. results s ! j
          = (if hasSettled (phase_of s j)
             then (case fn (items ! j) of Inr r \<Rightarrow> r | Inl e \<Rightarrow> zero) else zero))
   \<and> (all_ended items s \<and> (\<forall>j<length items. phase_of s j \<noteq> Skipped)
        \<and> (\<forall>x \<in> set items. \<not> isl (fn x)) \<longrightarrow>
        ParallelMap_returns s = Inr (map (\<lambda>x. projr (fn x)) items))
   \<and> distinct (settled s)
   \<and> set (settled s) = {i. i < length items \<and> hasSettled (phase_of s i)}
   \<and> ParallelMap_returns s
        = (case first_error items fn (settled s) of
             Some e \<Rightarrow> Inl e | None \<Rightarrow> Inr (results s))
   \<and> (\<not> all_ended items s \<longrightarrow> (\<exists>j. enabled items workers j s))
   \<and> (enabled items workers i s \<longrightarrow>
        pstep items fn workers s (advance items fn i s)
        \<and> follows (phase_of s i) (phase_of (advance items fn i s) i))
   \<and> (i < length items \<and> holding (phase_of s i) \<longrightarrow> enabled items workers i s)
   \<and> (pstep items fn workers s s' \<longrightarrow>
        work_left items s' < work_left items s
        \<or> (work_left items s' = work_left items s \<and> \<not> cancelled s \<and> cancelled s'))
   \<and> (feasible items fn workers js s \<longrightarrow>
        running items fn workers zero (schedule items fn js s))"
    (is "?inside \<and> ?bound \<and> ?len \<and> ?dist \<and> ?once \<and> ?checked \<and> ?all \<and> ?skipped \<and> ?order
         \<and> ?placed \<and> ?ok \<and> ?dsettled \<and> ?ssettled \<and> ?ret \<and> ?prog \<and> ?adv \<and> ?hold \<and> ?meas
         \<and> ?sched")
proof -
  let ?n = "length items"
  from assms have inv: "par_inv items fn workers zero s" by (rule running_inv)
  then have
    sem: "sem s = card (holders items s)" and
    bd: "int (sem s) \<le> slots items workers" and
    len: ?len and
    dist: ?dist and
    once: ?once and
    dsettled: ?dsettled and
    ssettled: ?ssettled and
    res: "\<forall>i<?n. results s ! i
          = (if i \<in> set (settled s)
             then (case fn (items ! i) of Inr r \<Rightarrow> r | Inl e \<Rightarrow> zero) else zero)" and
    er: "errs s = first_error items fn (settled s)" and
    sk: "\<forall>i<?n. phase_of s i = Skipped \<longrightarrow> cancelled s"
    unfolding par_inv_def by blast+
  have inside: ?inside
  proof -
    have "inside_fn items s \<subseteq> holders items s"
      by (auto simp: inside_fn_def holders_def)
    then have "card (inside_fn items s) \<le> card (holders items s)"
      by (rule card_mono[OF finite_holders])
    then show ?thesis by simp
  qed
  have bound: ?bound using sem bd by simp
  have checked: ?checked
  proof
    assume a: "all_ended items s"
    have "called (phase_of s j) \<longleftrightarrow> phase_of s j \<noteq> Skipped" if "j < ?n" for j
      using a that unfolding all_ended_def by (cases "phase_of s j") auto
    then show "set (applied s) = {i. i < ?n \<and> phase_of s i \<noteq> Skipped}"
      unfolding once by auto
  qed
  have all: ?all
  proof
    assume a: "all_ended items s \<and> \<not> cancelled s"
    then have "\<forall>j<?n. phase_of s j \<noteq> Skipped" using sk by blast
    with a checked show "set (applied s) = {..<?n}" by auto
  qed
  have placed: ?placed using res unfolding ssettled by simp
  have skipped: ?skipped
  proof
    assume h: "i < ?n \<and> phase_of s i = Skipped"
    then have "cancelled s" using sk by blast
    moreover have "i \<notin> set (applied s)" unfolding once using h by simp
    moreover have "results s ! i = zero" using placed h by simp
    ultimately show "cancelled s \<and> i \<notin> set (applied s) \<and> results s ! i = zero" by blast
  qed
  have order: ?order using pstep_follows[of items fn workers s s' i] by blast
  have ret: ?ret using er unfolding ParallelMap_returns_def by simp
  have ok: ?ok
  proof
    assume h: "all_ended items s \<and> (\<forall>j<?n. phase_of s j \<noteq> Skipped)
        \<and> (\<forall>x \<in> set items. \<not> isl (fn x))"
    then have e: "\<forall>j<?n. phase_of s j = Ended" unfolding all_ended_def by blast
    have "filter (\<lambda>i. isl (fn (items ! i))) (settled s) = []"
      using h ssettled by (auto simp: filter_empty_conv)
    then have "first_error items fn (settled s) = None" by (simp add: first_error_def)
    moreover have "results s = map (\<lambda>x. projr (fn x)) items"
    proof (rule nth_equalityI)
      show "length (results s) = length (map (\<lambda>x. projr (fn x)) items)" using len by simp
      fix j assume "j < length (results s)"
      then have j: "j < ?n" using len by simp
      then have "\<not> isl (fn (items ! j))" using h by simp
      then obtain r where "fn (items ! j) = Inr r" by (cases "fn (items ! j)") auto
      then show "results s ! j = map (\<lambda>x. projr (fn x)) items ! j"
        using placed j e by simp
    qed
    ultimately show "ParallelMap_returns s = Inr (map (\<lambda>x. projr (fn x)) items)"
      using ret by simp
  qed
  have prog: ?prog using can_step[OF inv] by blast
  have adv: ?adv
    using pstep_advance[of items workers i s fn] advance_follows[of items workers i s fn]
    by blast
  have hold: ?hold using holding_enabled[of i items s workers] by blast
  have meas: ?meas using pstep_work_left[of items fn workers s s'] by blast
  have sched: ?sched using running_schedule[OF assms, of js] by blast
  from inside bound len dist once checked all skipped order placed ok dsettled ssettled ret
    prog adv hold meas sched
  show ?thesis by (intro conjI)
qed

lemma example_feasible:
  "feasible [1, 2, 3 :: nat] tenfold 2 oneByOne (started [1, 2, 3 :: nat] (0 :: nat))"
  "feasible [1, 2, 3 :: nat] failsOnTwo 2 oneByOne (started [1, 2, 3 :: nat] (0 :: nat))"
  "feasible [1, 2, 3 :: nat] failsOnOdd 2 overtaking (started [1, 2, 3 :: nat] (0 :: nat))"
  by (simp_all add: oneByOne_def overtaking_def started_def enabled_def advance_def slots_def
        tenfold_def failsOnTwo_def failsOnOdd_def)

lemma example_states:
  "exampleRun = \<lparr>phase_of = (\<lambda>i. Spawned)(2 := Ended, 0 := Ended, 1 := Ended), sem = 0,
      results = [10, 20, 30], errs = None, cancelled = False, applied = [2, 0, 1],
      settled = [2, 0, 1]\<rparr>"
  "failingRun = \<lparr>phase_of = (\<lambda>i. Spawned)(2 := Ended, 0 := Ended, 1 := Ended), sem = 0,
      results = [10, 0, 30], errs = Some (errorString 2 ''two''), cancelled = False,
      applied = [2, 0, 1], settled = [2, 0, 1]\<rparr>"
  "raceRun = \<lparr>phase_of = (\<lambda>i. Spawned)(0 := Ended, 2 := Ended, 1 := Ended), sem = 0,
      results = [0, 20, 0], errs = Some (errorString 3 ''three''), cancelled = False,
      applied = [0, 2, 1], settled = [2, 0, 1]\<rparr>"
  by (simp_all add: exampleRun_def failingRun_def raceRun_def oneByOne_def overtaking_def
        started_def advance_def tenfold_def failsOnTwo_def failsOnOdd_def fun_upd_twist)

text \<open>
  The theorem on three items and two workers. With the goroutines one after the other
  in the order 2, 0, 1, and \<open>tenfold\<close>, the results come back in the order of the
  items; with \<open>failsOnTwo\<close> the error of the item 2 is returned, after all three calls
  have returned. With \<open>failsOnOdd\<close> and the goroutine 2 overtaking the goroutine 0
  between the return of its call and the channel, the error returned is the one of the
  item 3, although the call on the item 1 was the first to fail.
\<close>

theorem ParallelMap_spec_witness:
  "running [1, 2, 3] tenfold 2 0 exampleRun
   \<and> all_ended [1, 2, 3 :: nat] exampleRun
   \<and> applied exampleRun = [2, 0, 1]
   \<and> ParallelMap_returns exampleRun = Inr [10, 20, 30]
   \<and> running [1, 2, 3] failsOnTwo 2 0 failingRun
   \<and> all_ended [1, 2, 3 :: nat] failingRun
   \<and> results failingRun = [10, 0, 30]
   \<and> ParallelMap_returns failingRun = Inl (errorString 2 ''two'')
   \<and> running [1, 2, 3] failsOnOdd 2 0 raceRun
   \<and> all_ended [1, 2, 3 :: nat] raceRun
   \<and> applied raceRun = [0, 2, 1]
   \<and> settled raceRun = [2, 0, 1]
   \<and> ParallelMap_returns raceRun = Inl (errorString 3 ''three'')"
proof -
  let ?items = "[1, 2, 3 :: nat]"
  let ?s0 = "started ?items (0 :: nat)"
  note sched = ParallelMap_spec[where items="?items" and workers=2 and zero=0 and s="?s0",
      OF from_start, THEN conjunct2, THEN conjunct2, THEN conjunct2, THEN conjunct2,
      THEN conjunct2, THEN conjunct2, THEN conjunct2, THEN conjunct2, THEN conjunct2,
      THEN conjunct2, THEN conjunct2, THEN conjunct2, THEN conjunct2, THEN conjunct2,
      THEN conjunct2, THEN conjunct2, THEN conjunct2, THEN conjunct2, THEN mp]
  have r1: "running ?items tenfold 2 0 exampleRun"
    unfolding exampleRun_def by (rule sched[OF example_feasible(1)])
  have r2: "running ?items failsOnTwo 2 0 failingRun"
    unfolding failingRun_def by (rule sched[OF example_feasible(2)])
  have r3: "running ?items failsOnOdd 2 0 raceRun"
    unfolding raceRun_def by (rule sched[OF example_feasible(3)])
  have e: "all_ended ?items exampleRun" "all_ended ?items failingRun" "all_ended ?items raceRun"
    by (auto simp: example_states all_ended_def less_Suc_eq numeral_3_eq_3)
  have a: "applied exampleRun = [2, 0, 1]" "results failingRun = [10, 0, 30]"
    "applied raceRun = [0, 2, 1]" "settled raceRun = [2, 0, 1]"
    by (simp_all add: example_states)
  have ante: "all_ended ?items exampleRun \<and> (\<forall>j<length ?items. phase_of exampleRun j \<noteq> Skipped)
      \<and> (\<forall>x \<in> set ?items. \<not> isl (tenfold x))"
    using e(1) by (auto simp: example_states tenfold_def less_Suc_eq numeral_3_eq_3)
  have "ParallelMap_returns exampleRun = Inr (map (\<lambda>x. projr (tenfold x)) ?items)"
    by (rule ParallelMap_spec[OF r1, THEN conjunct2, THEN conjunct2, THEN conjunct2,
          THEN conjunct2, THEN conjunct2, THEN conjunct2, THEN conjunct2, THEN conjunct2,
          THEN conjunct2, THEN conjunct2, THEN conjunct1, THEN mp, OF ante])
  then have p1: "ParallelMap_returns exampleRun = Inr [10, 20, 30]"
    by (simp add: tenfold_def)
  note ret = ParallelMap_spec[THEN conjunct2, THEN conjunct2, THEN conjunct2,
      THEN conjunct2, THEN conjunct2, THEN conjunct2, THEN conjunct2, THEN conjunct2,
      THEN conjunct2, THEN conjunct2, THEN conjunct2, THEN conjunct2, THEN conjunct2,
      THEN conjunct1]
  have p2: "ParallelMap_returns failingRun = Inl (errorString 2 ''two'')"
    using ret[OF r2] by (simp add: example_states first_error_def failsOnTwo_def)
  have p3: "ParallelMap_returns raceRun = Inl (errorString 3 ''three'')"
    using ret[OF r3] by (simp add: example_states first_error_def failsOnOdd_def)
  from r1 r2 r3 e a p1 p2 p3 show ?thesis by simp
qed

text \<open>
  The claim as first stated, \<open>fn\<close> applied to every item, fails when the context is
  done: the goroutine returns at its check, \<open>fn\<close> is applied to no item, and
  \<open>ParallelMap\<close> returns the zero values with no error.
\<close>

theorem ParallelMap_spec_counterexample:
  "running [7] tenfold 2 0 cancelledRun
   \<and> all_ended [7 :: nat] cancelledRun
   \<and> phase_of cancelledRun 0 = Skipped
   \<and> applied cancelledRun = []
   \<and> ParallelMap_returns cancelledRun = Inr [0]"
proof -
  let ?s0 = "started [7 :: nat] (0 :: nat)"
  have r0: "running [7] tenfold 2 0 ?s0" by (rule from_start)
  have r1: "running [7] tenfold 2 0 (?s0\<lparr>cancelled := True\<rparr>)"
    by (rule after_pstep[OF r0]) (rule pstep.cancel, simp add: started_def)
  have f: "feasible [7 :: nat] tenfold 2 [0] (?s0\<lparr>cancelled := True\<rparr>)"
    by (simp add: started_def enabled_def)
  have r2: "running [7] tenfold 2 0 cancelledRun"
    unfolding cancelledRun_def by (rule running_schedule[OF r1 f])
  show ?thesis
    using r2
    by (simp add: cancelledRun_def started_def advance_def all_ended_def
          ParallelMap_returns_def)
qed

end
